theory Spec2Isabelle
  imports Complex_Main "HOL-Library.Char_ord" "HOL-Library.List_Lexorder" "HOL-Library.Product_Lexorder"
begin

section \<open>Hex-grid topology\<close>

text \<open>
  A cell is a pair \<open>(row, col)\<close> of Python integers. The grid extent \<open>rows\<close>, \<open>cols\<close> and
  the coordinates are unbounded Python \<open>int\<close>s, hence \<open>int\<close> here; Python's \<open>r % 2\<close> is
  the floored remainder, which is \<open>mod\<close> on \<open>int\<close>.
\<close>

type_synonym cell = "int \<times> int"

text \<open>The bounds test \<open>0 <= rr < rows and 0 <= cc < cols\<close> shared by all neighbour rules.\<close>

definition in_grid :: "int \<Rightarrow> int \<Rightarrow> cell \<Rightarrow> bool" where
  "in_grid rows cols p = (0 \<le> fst p \<and> fst p < rows \<and> 0 \<le> snd p \<and> snd p < cols)"

text \<open>
  \<open>hex_neighbors\<close> of \<open>planar.py\<close> (the same text stands in \<open>11x11_imp/planar.py\<close>,
  \<open>generate_graphs.py\<close>, \<open>planar_graph_tool.py\<close> and
  \<open>planar_graph_tool_with_testbench.py\<close>).
\<close>

definition hex_neighbors :: "int \<Rightarrow> int \<Rightarrow> int \<Rightarrow> int \<Rightarrow> cell list" where
  "hex_neighbors rows cols r c =
     (let cand =
        (if r mod 2 = 0
         then [(r, c - 1), (r, c + 1), (r - 1, c - 1), (r - 1, c), (r + 1, c - 1), (r + 1, c)]
         else [(r, c - 1), (r, c + 1), (r - 1, c), (r - 1, c + 1), (r + 1, c), (r + 1, c + 1)])
      in filter (in_grid rows cols) cand)"

text \<open>
  \<open>neighbors\<close>, the nested function of \<open>generate_hex_network\<close>; it closes over the
  \<open>rows\<close> and \<open>cols\<close> of the enclosing call, which are parameters here.
\<close>

definition neighbors :: "int \<Rightarrow> int \<Rightarrow> int \<Rightarrow> int \<Rightarrow> cell list" where
  "neighbors rows cols r c =
     (let cand =
        (if r mod 2 = 0
         then [(r, c - 1), (r, c + 1), (r - 1, c - 1), (r - 1, c), (r + 1, c - 1), (r + 1, c)]
         else [(r, c - 1), (r, c + 1), (r - 1, c), (r - 1, c + 1), (r + 1, c), (r + 1, c + 1)])
      in filter (in_grid rows cols) cand)"

text \<open>
  \<open>expected_neighbors\<close> of \<open>verification.py\<close>: the list \<open>nbrs\<close> is filled by a loop
  over the candidates that appends those within bounds. Its two candidate lists are
  attached to the opposite row parities.
\<close>

definition expected_neighbors :: "int \<Rightarrow> int \<Rightarrow> int \<Rightarrow> int \<Rightarrow> cell list" where
  "expected_neighbors rows cols r c =
     (let cand =
        (if r mod 2 = 0
         then [(r, c - 1), (r, c + 1), (r - 1, c), (r - 1, c + 1), (r + 1, c), (r + 1, c + 1)]
         else [(r, c - 1), (r, c + 1), (r - 1, c - 1), (r - 1, c), (r + 1, c - 1), (r + 1, c)])
      in filter (in_grid rows cols) cand)"

text \<open>
  The offsets of \<open>hex_neighbors\<close> as a relation between two cells, without the bounds:
  the same row one column apart, or an adjoining row in the same column or in the
  column the parity of the first row selects. It serves the proofs only.
\<close>

definition hex_adjacent :: "cell \<Rightarrow> cell \<Rightarrow> bool" where
  "hex_adjacent a b =
     ((fst b = fst a \<and> (snd b = snd a - 1 \<or> snd b = snd a + 1)) \<or>
      ((fst b = fst a - 1 \<or> fst b = fst a + 1) \<and>
       (snd b = snd a \<or> snd b = (if fst a mod 2 = 0 then snd a - 1 else snd a + 1))))"

section \<open>Python values used by the generators\<close>

text \<open>
  Exceptions are values. \<open>ValueError\<close> carries its message, which tells the capacity
  check's error from the one \<open>random.sample\<close> raises.
\<close>

datatype py_error = ValueError string | IndexError | KeyError

text \<open>
  What one pass over the body of a generator ends in: an exception, the self-call
  \<open>return generate_planar_graph(rows, cols, num_nodes, seed)\<close>, or a value.
\<close>

datatype 'a outcome = Raised py_error | Restart | Done 'a

text \<open>\<open>range(n)\<close>: empty when \<open>n\<close> is not positive.\<close>

definition py_range :: "int \<Rightarrow> int list" where
  "py_range n = map int [0..<nat n]"

text \<open>\<open>str(i)\<close> for a non-negative integer: its decimal digits.\<close>

definition digit_char :: "nat \<Rightarrow> char" where
  "digit_char d = ''0123456789'' ! d"

function str_nat :: "nat \<Rightarrow> string" where
  "str_nat n = (if n < 10 then [digit_char n] else str_nat (n div 10) @ [digit_char (n mod 10)])"
  by pat_completeness auto
termination
  by (relation "measure id") auto

declare str_nat.simps [simp del]

text \<open>\<open>d[k]\<close> on a dict raises \<open>KeyError\<close> for a missing key.\<close>

definition lookup :: "('k \<rightharpoonup> 'v) \<Rightarrow> 'k \<Rightarrow> py_error + 'v" where
  "lookup m k = (case m k of None \<Rightarrow> Inl KeyError | Some v \<Rightarrow> Inr v)"

text \<open>
  \<open>tuple(sorted((a, b)))\<close> on two strings: Python compares strings lexicographically by
  code point and \<open>sorted\<close> is stable, so the pair is swapped only when \<open>b < a\<close>.
\<close>

definition sorted2 :: "string \<Rightarrow> string \<Rightarrow> string \<times> string" where
  "sorted2 a b = (if b < a then (b, a) else (a, b))"

subsection \<open>Sets of labels\<close>

text \<open>
  A Python \<open>set\<close> is modelled by the list of its elements without repetition. The order
  in which CPython iterates over a set, and the element \<open>pop()\<close> removes, depend on the
  hash values and are not fixed by the language: they are given by an oracle \<open>pick\<close>
  that names the position of the element met first. \<open>pop()\<close> removes that element, and
  iteration meets the elements in the order repeated \<open>pop()\<close> would.
\<close>

definition py_set :: "'a list \<Rightarrow> 'a list" where
  "py_set xs = remdups xs"

definition set_pop :: "('a list \<Rightarrow> nat) \<Rightarrow> 'a list \<Rightarrow> py_error + ('a \<times> 'a list)" where
  "set_pop pick xs =
     (if xs = [] then Inl KeyError
      else let i = pick xs mod length xs in Inr (xs ! i, take i xs @ drop (Suc i) xs))"

definition set_add :: "'a \<Rightarrow> 'a list \<Rightarrow> 'a list" where
  "set_add x xs = (if x \<in> set xs then xs else xs @ [x])"

definition set_remove :: "'a \<Rightarrow> 'a list \<Rightarrow> py_error + 'a list" where
  "set_remove x xs = (if x \<in> set xs then Inr (removeAll x xs) else Inl KeyError)"

lemma set_pop_shorter:
  assumes "set_pop pick xs = Inr (x, rest)"
  shows "length rest < length xs"
proof -
  from assms have ne: "xs \<noteq> []"
    by (auto simp: set_pop_def split: if_splits)
  then have "pick xs mod length xs < length xs"
    by simp
  moreover from assms ne
  have "rest = take (pick xs mod length xs) xs @ drop (Suc (pick xs mod length xs)) xs"
    by (simp add: set_pop_def Let_def)
  ultimately show ?thesis
    by simp
qed

function set_iter :: "('a list \<Rightarrow> nat) \<Rightarrow> 'a list \<Rightarrow> 'a list" where
  "set_iter pick xs =
     (case set_pop pick xs of Inl e \<Rightarrow> [] | Inr (x, rest) \<Rightarrow> x # set_iter pick rest)"
  by pat_completeness auto
termination
  by (relation "measure (\<lambda>(pick, xs). length xs)") (auto dest: set_pop_shorter)

declare set_iter.simps [simp del]

subsection \<open>The pseudo-random generator\<close>

text \<open>
  Python's \<open>random\<close> module is not code of the repository: it is a parameter. Its hidden
  global state has type \<open>'s\<close>; every call takes the state and returns the new one.
  \<open>seed_fn\<close> is \<open>random.seed\<close>, \<open>sample_fn\<close> is \<open>random.sample\<close> on a population and a
  count within its size, \<open>choice_fn\<close> gives the index \<open>random.choice\<close> picks in a
  sequence of the given length, and \<open>random_fn\<close> is \<open>random.random\<close>, a double in
  \<open>[0, 1)\<close>, which is a rational number.
\<close>

record 's prng =
  seed_fn :: "int \<Rightarrow> 's"
  sample_fn :: "'s \<Rightarrow> cell list \<Rightarrow> nat \<Rightarrow> cell list \<times> 's"
  choice_fn :: "'s \<Rightarrow> nat \<Rightarrow> nat \<times> 's"
  random_fn :: "'s \<Rightarrow> rat \<times> 's"

text \<open>\<open>if seed is not None: random.seed(seed)\<close>\<close>

definition reseed :: "'s prng \<Rightarrow> int option \<Rightarrow> 's \<Rightarrow> 's" where
  "reseed P seed st = (case seed of None \<Rightarrow> st | Some s \<Rightarrow> seed_fn P s)"

text \<open>\<open>random.sample(population, k)\<close> raises \<open>ValueError\<close> when \<open>k\<close> is out of range.\<close>

definition py_sample :: "'s prng \<Rightarrow> 's \<Rightarrow> cell list \<Rightarrow> int \<Rightarrow> py_error + (cell list \<times> 's)" where
  "py_sample P st population k =
     (if k < 0 \<or> int (length population) < k
      then Inl (ValueError ''Sample larger than population or is negative'')
      else Inr (sample_fn P st population (nat k)))"

text \<open>\<open>random.choice(seq)\<close> raises \<open>IndexError\<close> on an empty sequence.\<close>

definition py_choice :: "'s prng \<Rightarrow> 's \<Rightarrow> 'a list \<Rightarrow> py_error + ('a \<times> 's)" where
  "py_choice P st xs =
     (if xs = [] then Inl IndexError
      else let (i, st') = choice_fn P st (length xs) in Inr (xs ! (i mod length xs), st'))"

section \<open>The graph under construction\<close>

text \<open>
  The generators keep a set \<open>edges\<close> of sorted label pairs and a dict \<open>degree\<close>; the
  nested function \<open>add_edge\<close> is the only code that changes them. The edge set is kept
  in insertion order; \<open>list(edges)\<close> may return any order, and nothing below depends on
  it.
\<close>

record gstate =
  edges :: "(string \<times> string) list"
  degree :: "string \<rightharpoonup> nat"

definition maxdeg :: nat where
  "maxdeg = 6"

definition add_edge :: "string \<Rightarrow> string \<Rightarrow> gstate \<Rightarrow> py_error + (bool \<times> gstate)" where
  "add_edge a b s =
     (if a = b then Inr (False, s)
      else (case lookup (degree s) a of
        Inl e \<Rightarrow> Inl e
      | Inr da \<Rightarrow>
          if da \<ge> maxdeg then Inr (False, s)
          else (case lookup (degree s) b of
            Inl e \<Rightarrow> Inl e
          | Inr db \<Rightarrow>
              if db \<ge> maxdeg then Inr (False, s)
              else let e = sorted2 a b; d = ((degree s)(a \<mapsto> da + 1))(b \<mapsto> db + 1) in
                if e \<in> set (edges s) then Inr (False, s)
                else Inr (True, s\<lparr>edges := edges s @ [e], degree := d\<rparr>))))"

text \<open>The value the generators return: \<open>nodes, list(edges), pos_map\<close>.\<close>

record graph =
  nodes :: "string list"
  edge_list :: "(string \<times> string) list"
  pos_map :: "string \<rightharpoonup> cell"

definition all_cells :: "int \<Rightarrow> int \<Rightarrow> cell list" where
  "all_cells rows cols = concat (map (\<lambda>r. map (\<lambda>c. (r, c)) (py_range cols)) (py_range rows))"

definition labels :: "int \<Rightarrow> string list" where
  "labels num_nodes = map str_nat [0..<nat num_nodes]"

text \<open>
  \<open>{nodes[i]: chosen[i] for i in range(num_nodes)}\<close>: \<open>chosen[i]\<close> raises \<open>IndexError\<close>
  if the sample were shorter than the label list; a later entry for a key replaces an
  earlier one.
\<close>

definition build_pos_map :: "string list \<Rightarrow> cell list \<Rightarrow> py_error + (string \<rightharpoonup> cell)" where
  "build_pos_map ns chosen =
     (if length chosen < length ns then Inl IndexError
      else Inr (map_of (rev (zip ns chosen))))"

definition init_gstate :: "string list \<Rightarrow> gstate" where
  "init_gstate ns = \<lparr>edges = [], degree = map_of (map (\<lambda>n. (n, 0)) ns)\<rparr>"


section \<open>The restarting generators\<close>

text \<open>
  \<open>generate_planar_graph\<close> stands in four files that differ in the capacity test, its
  message and the probability of the densification phase: \<open>planar.py\<close>,
  \<open>generate_graphs.py\<close>, \<open>planar_graph_tool.py\<close> and
  \<open>planar_graph_tool_with_testbench.py\<close>.
\<close>

datatype variant = Planar | Generate_Graphs | Graph_Tool | Graph_Tool_Testbench

text \<open>\<open>num_nodes > max_cells\<close> in \<open>planar.py\<close>, \<open>num_nodes >= max_cells\<close> in the others.\<close>

fun capacity_exceeded :: "variant \<Rightarrow> int \<Rightarrow> int \<Rightarrow> int \<Rightarrow> bool" where
  "capacity_exceeded Planar rows cols num_nodes = (num_nodes > rows * cols)"
| "capacity_exceeded v rows cols num_nodes = (num_nodes \<ge> rows * cols)"

fun capacity_msg :: "variant \<Rightarrow> string" where
  "capacity_msg Planar = ''num_nodes must be <= rows*cols''"
| "capacity_msg Generate_Graphs = ''Number of nodes must be strictly less than rows*cols''"
| "capacity_msg Graph_Tool = ''Number of nodes must be STRICTLY less than rows*cols''"
| "capacity_msg Graph_Tool_Testbench = ''Nodes must be < rows*cols''"

text \<open>
  The doubles the literals \<open>0.3\<close> and \<open>0.35\<close> denote, as exact rationals; comparing two
  doubles with \<open><\<close> is exact.
\<close>

fun edge_prob :: "variant \<Rightarrow> rat" where
  "edge_prob Planar = 5404319552844595 / 18014398509481984"
| "edge_prob v = 3152519739159347 / 9007199254740992"

text \<open>
  The loop \<open>for v in visited\<close> that collects into \<open>parents\<close> the visited nodes whose
  neighbour list holds the cell of \<open>nxt\<close>.
\<close>

fun find_parents ::
  "int \<Rightarrow> int \<Rightarrow> (string \<rightharpoonup> cell) \<Rightarrow> cell \<Rightarrow> string list \<Rightarrow> py_error + string list" where
  "find_parents rows cols pm rc [] = Inr []"
| "find_parents rows cols pm rc (v # vs) =
     (case lookup pm v of
        Inl e \<Rightarrow> Inl e
      | Inr (rv, cv) \<Rightarrow>
          (case find_parents rows cols pm rc vs of
             Inl e \<Rightarrow> Inl e
           | Inr ps \<Rightarrow> Inr (if rc \<in> set (hex_neighbors rows cols rv cv) then v # ps else ps)))"

text \<open>
  The spanning phase, \<open>while unvisited: ...\<close>. The value of \<open>add_edge(parent, nxt)\<close> is
  not used; \<open>visited.add(nxt)\<close> follows whether the edge was added or not.
\<close>

function spanning ::
  "'s prng \<Rightarrow> (string list \<Rightarrow> nat) \<Rightarrow> int \<Rightarrow> int \<Rightarrow> (string \<rightharpoonup> cell) \<Rightarrow>
   string list \<Rightarrow> string list \<Rightarrow> gstate \<Rightarrow> 's \<Rightarrow> gstate outcome \<times> 's" where
  "spanning P pick rows cols pm unvisited visited s st =
     (if unvisited = [] then (Done s, st)
      else (case set_pop pick unvisited of
        Inl e \<Rightarrow> (Raised e, st)
      | Inr (nxt, rest) \<Rightarrow>
          (case lookup pm nxt of
             Inl e \<Rightarrow> (Raised e, st)
           | Inr rc \<Rightarrow>
               (case find_parents rows cols pm rc (set_iter pick visited) of
                  Inl e \<Rightarrow> (Raised e, st)
                | Inr parents \<Rightarrow>
                    if parents = [] then (Restart, st)
                    else (case py_choice P st parents of
                            Inl e \<Rightarrow> (Raised e, st)
                          | Inr (parent, st') \<Rightarrow>
                              (case add_edge parent nxt s of
                                 Inl e \<Rightarrow> (Raised e, st')
                               | Inr (ok, s') \<Rightarrow>
                                   spanning P pick rows cols pm rest (set_add nxt visited) s' st'))))))"
  by pat_completeness auto
termination
  by (relation "measure (\<lambda>(P, pick, rows, cols, pm, unvisited, visited, s, st). length unvisited)")
     (auto dest: set_pop_shorter)

declare spanning.simps [simp del]

text \<open>
  The densification phase: \<open>for u in nodes: for v in nodes: ...\<close>. \<open>densify_row\<close> is the
  inner loop for one \<open>u\<close> at cell \<open>(ru, cu)\<close>.
\<close>

fun densify_row ::
  "'s prng \<Rightarrow> rat \<Rightarrow> int \<Rightarrow> int \<Rightarrow> (string \<rightharpoonup> cell) \<Rightarrow> string \<Rightarrow> cell \<Rightarrow>
   string list \<Rightarrow> gstate \<Rightarrow> 's \<Rightarrow> (py_error + gstate) \<times> 's" where
  "densify_row P p rows cols pm u ruc [] s st = (Inr s, st)"
| "densify_row P p rows cols pm u ruc (v # vs) s st =
     (if u = v then densify_row P p rows cols pm u ruc vs s st
      else (case lookup pm v of
        Inl e \<Rightarrow> (Inl e, st)
      | Inr rvc \<Rightarrow>
          if rvc \<in> set (hex_neighbors rows cols (fst ruc) (snd ruc))
          then (let (x, st') = random_fn P st in
                if x < p
                then (case add_edge u v s of
                        Inl e \<Rightarrow> (Inl e, st')
                      | Inr (ok, s') \<Rightarrow> densify_row P p rows cols pm u ruc vs s' st')
                else densify_row P p rows cols pm u ruc vs s st')
          else densify_row P p rows cols pm u ruc vs s st))"

fun densify ::
  "'s prng \<Rightarrow> rat \<Rightarrow> int \<Rightarrow> int \<Rightarrow> (string \<rightharpoonup> cell) \<Rightarrow> string list \<Rightarrow>
   string list \<Rightarrow> gstate \<Rightarrow> 's \<Rightarrow> (py_error + gstate) \<times> 's" where
  "densify P p rows cols pm ns [] s st = (Inr s, st)"
| "densify P p rows cols pm ns (u # us) s st =
     (case lookup pm u of
        Inl e \<Rightarrow> (Inl e, st)
      | Inr ruc \<Rightarrow>
          (case densify_row P p rows cols pm u ruc ns s st of
             (Inl e, st') \<Rightarrow> (Inl e, st')
           | (Inr s', st') \<Rightarrow> densify P p rows cols pm ns us s' st'))"

text \<open>
  One pass over the body of \<open>generate_planar_graph\<close> after the seeding, up to its
  \<open>return\<close>, its \<open>raise\<close> or its self-call.
\<close>

definition attempt ::
  "variant \<Rightarrow> 's prng \<Rightarrow> (string list \<Rightarrow> nat) \<Rightarrow> int \<Rightarrow> int \<Rightarrow> int \<Rightarrow> 's \<Rightarrow> graph outcome \<times> 's" where
  "attempt v P pick rows cols num_nodes st =
     (if capacity_exceeded v rows cols num_nodes then (Raised (ValueError (capacity_msg v)), st)
      else case py_sample P st (all_cells rows cols) num_nodes of
        Inl e \<Rightarrow> (Raised e, st)
      | Inr (chosen, st1) \<Rightarrow>
          (case build_pos_map (labels num_nodes) chosen of
             Inl e \<Rightarrow> (Raised e, st1)
           | Inr pm \<Rightarrow>
               (case set_pop pick (py_set (labels num_nodes)) of
                  Inl e \<Rightarrow> (Raised e, st1)
                | Inr (start, unvisited) \<Rightarrow>
                    (case spanning P pick rows cols pm unvisited (set_add start [])
                            (init_gstate (labels num_nodes)) st1 of
                       (Done s1, st2) \<Rightarrow>
                         (case densify P (edge_prob v) rows cols pm (labels num_nodes)
                                 (labels num_nodes) s1 st2 of
                            (Inr s2, st3) \<Rightarrow>
                              (Done \<lparr>nodes = labels num_nodes, edge_list = edges s2,
                                     pos_map = pm\<rparr>, st3)
                          | (Inl e, st3) \<Rightarrow> (Raised e, st3))
                     | (Raised e, st2) \<Rightarrow> (Raised e, st2)
                     | (Restart, st2) \<Rightarrow> (Restart, st2)))))"

text \<open>
  \<open>generate_planar_graph\<close>: the seeding, one pass, and on geometric isolation the
  self-call with the same arguments. The recursion has no bound in the source, so the
  model counts the self-calls still allowed: \<open>None\<close> says that \<open>fuel\<close> self-calls did
  not reach a \<open>return\<close> or a \<open>raise\<close>.
\<close>

fun generate_planar_graph ::
  "nat \<Rightarrow> variant \<Rightarrow> 's prng \<Rightarrow> (string list \<Rightarrow> nat) \<Rightarrow> int \<Rightarrow> int \<Rightarrow> int \<Rightarrow> int option \<Rightarrow> 's \<Rightarrow>
   (py_error + graph) option \<times> 's" where
  "generate_planar_graph fuel v P pick rows cols num_nodes seed st =
     (case attempt v P pick rows cols num_nodes (reseed P seed st) of
        (Raised e, st') \<Rightarrow> (Some (Inl e), st')
      | (Done g, st') \<Rightarrow> (Some (Inr g), st')
      | (Restart, st') \<Rightarrow>
          (case fuel of
             0 \<Rightarrow> (None, st')
           | Suc k \<Rightarrow> generate_planar_graph k v P pick rows cols num_nodes seed st'))"

declare generate_planar_graph.simps [simp del]


section \<open>The generator without restarts\<close>

text \<open>
  \<open>generate_planar_graph_safe\<close> of \<open>11x11_imp/planar.py\<close>. The state of its \<open>while\<close>
  loop: the graph under construction, the sets \<open>remaining\<close> and \<open>visited\<close>, and the list
  \<open>queue\<close>.
\<close>

record sstate =
  gs :: gstate
  remaining :: "string list"
  visited :: "string list"
  queue :: "string list"

text \<open>\<open>visited.add(w); remaining.remove(w); queue.append(w)\<close>\<close>

definition move_to_visited :: "string \<Rightarrow> sstate \<Rightarrow> py_error + sstate" where
  "move_to_visited w t =
     (case set_remove w (remaining t) of
        Inl e \<Rightarrow> Inl e
      | Inr rem' \<Rightarrow>
          Inr (t\<lparr>remaining := rem', visited := set_add w (visited t), queue := queue t @ [w]\<rparr>))"

text \<open>\<open>[w for w in list(remaining) if pos_map[w] in hex_adj]\<close>\<close>

fun select_adjacent ::
  "(string \<rightharpoonup> cell) \<Rightarrow> cell list \<Rightarrow> string list \<Rightarrow> py_error + string list" where
  "select_adjacent pm hex_adj [] = Inr []"
| "select_adjacent pm hex_adj (w # ws) =
     (case lookup pm w of
        Inl e \<Rightarrow> Inl e
      | Inr wc \<Rightarrow>
          (case select_adjacent pm hex_adj ws of
             Inl e \<Rightarrow> Inl e
           | Inr sel \<Rightarrow> Inr (if wc \<in> set hex_adj then w # sel else sel)))"

text \<open>\<open>for w in neighbors: if add_edge(u, w): ...\<close>\<close>

fun bfs_connect :: "string \<Rightarrow> string list \<Rightarrow> sstate \<Rightarrow> py_error + sstate" where
  "bfs_connect u [] t = Inr t"
| "bfs_connect u (w # ws) t =
     (case add_edge u w (gs t) of
        Inl e \<Rightarrow> Inl e
      | Inr (ok, g') \<Rightarrow>
          if ok
          then (case move_to_visited w (t\<lparr>gs := g'\<rparr>) of
                  Inl e \<Rightarrow> Inl e
                | Inr t' \<Rightarrow> bfs_connect u ws t')
          else bfs_connect u ws t)"

text \<open>\<open>[p for p in visited if degree[p] < MAXDEG]\<close>\<close>

fun free_parents :: "(string \<rightharpoonup> nat) \<Rightarrow> string list \<Rightarrow> py_error + string list" where
  "free_parents deg [] = Inr []"
| "free_parents deg (p # ps) =
     (case lookup deg p of
        Inl e \<Rightarrow> Inl e
      | Inr d \<Rightarrow>
          (case free_parents deg ps of
             Inl e \<Rightarrow> Inl e
           | Inr sel \<Rightarrow> Inr (if d < maxdeg then p # sel else sel)))"

text \<open>
  \<open>for w in list(remaining): ...\<close> with its \<open>break\<close>: the Boolean is \<open>fixed\<close>. The list
  was taken before the loop, and the loop ends at the first change of the state.
\<close>

fun try_fix ::
  "int \<Rightarrow> int \<Rightarrow> (string \<rightharpoonup> cell) \<Rightarrow> string \<Rightarrow> cell \<Rightarrow> string list \<Rightarrow> sstate \<Rightarrow>
   py_error + (bool \<times> sstate)" where
  "try_fix rows cols pm p prc [] t = Inr (False, t)"
| "try_fix rows cols pm p prc (w # ws) t =
     (case lookup pm w of
        Inl e \<Rightarrow> Inl e
      | Inr wrc \<Rightarrow>
          if wrc \<in> set (hex_neighbors rows cols (fst prc) (snd prc))
          then (case add_edge p w (gs t) of
                  Inl e \<Rightarrow> Inl e
                | Inr (ok, g') \<Rightarrow>
                    if ok
                    then (case move_to_visited w (t\<lparr>gs := g'\<rparr>) of
                            Inl e \<Rightarrow> Inl e
                          | Inr t' \<Rightarrow> Inr (True, t'))
                    else try_fix rows cols pm p prc ws t)
          else try_fix rows cols pm p prc ws t)"

text \<open>
  \<open>min(visited, key=...)\<close> with the squared distance to \<open>(wr, wc)\<close> as key: the first
  element with the least key in iteration order; \<open>ValueError\<close> on an empty set.
\<close>

fun keyed :: "(string \<rightharpoonup> cell) \<Rightarrow> cell \<Rightarrow> string list \<Rightarrow> py_error + (int \<times> string) list" where
  "keyed pm wrc [] = Inr []"
| "keyed pm wrc (vv # vs) =
     (case lookup pm vv of
        Inl e \<Rightarrow> Inl e
      | Inr vc \<Rightarrow>
          (case keyed pm wrc vs of
             Inl e \<Rightarrow> Inl e
           | Inr ks \<Rightarrow> Inr (((fst vc - fst wrc)\<^sup>2 + (snd vc - snd wrc)\<^sup>2, vv) # ks)))"

fun first_min :: "int \<times> string \<Rightarrow> (int \<times> string) list \<Rightarrow> string" where
  "first_min best [] = snd best"
| "first_min best (kv # kvs) = first_min (if fst kv < fst best then kv else best) kvs"

definition nearest_visited ::
  "(string list \<Rightarrow> nat) \<Rightarrow> (string \<rightharpoonup> cell) \<Rightarrow> cell \<Rightarrow> string list \<Rightarrow> py_error + string" where
  "nearest_visited pick pm wrc vis =
     (case keyed pm wrc (set_iter pick vis) of
        Inl e \<Rightarrow> Inl e
      | Inr [] \<Rightarrow> Inl (ValueError ''min() arg is an empty sequence'')
      | Inr (kv # kvs) \<Rightarrow> Inr (first_min kv kvs))"

text \<open>
  The last-resort branch \<open>if not fixed: ...\<close>. The value of \<open>add_edge(best_p, w)\<close> is
  not used: \<open>w\<close> is moved to \<open>visited\<close> whether the edge was added or not.
\<close>

definition force_fix ::
  "(string list \<Rightarrow> nat) \<Rightarrow> (string \<rightharpoonup> cell) \<Rightarrow> sstate \<Rightarrow> py_error + sstate" where
  "force_fix pick pm t =
     (case set_iter pick (remaining t) of
        [] \<Rightarrow> Inl IndexError
      | w # ws \<Rightarrow>
          (case lookup pm w of
             Inl e \<Rightarrow> Inl e
           | Inr wrc \<Rightarrow>
               (case nearest_visited pick pm wrc (visited t) of
                  Inl e \<Rightarrow> Inl e
                | Inr best_p \<Rightarrow>
                    (case add_edge best_p w (gs t) of
                       Inl e \<Rightarrow> Inl e
                     | Inr (ok, g') \<Rightarrow> move_to_visited w (t\<lparr>gs := g'\<rparr>)))))"

text \<open>The branch \<open>if not queue and remaining: ...\<close>, entered when the search is stuck.\<close>

definition unstick ::
  "'s prng \<Rightarrow> (string list \<Rightarrow> nat) \<Rightarrow> int \<Rightarrow> int \<Rightarrow> (string \<rightharpoonup> cell) \<Rightarrow> sstate \<Rightarrow> 's \<Rightarrow>
   (py_error + sstate) \<times> 's" where
  "unstick P pick rows cols pm t st =
     (case free_parents (degree (gs t)) (set_iter pick (visited t)) of
        Inl e \<Rightarrow> (Inl e, st)
      | Inr parents \<Rightarrow>
          (case py_choice P st parents of
             Inl e \<Rightarrow> (Inl e, st)
           | Inr (p, st') \<Rightarrow>
               (case lookup pm p of
                  Inl e \<Rightarrow> (Inl e, st')
                | Inr prc \<Rightarrow>
                    (case try_fix rows cols pm p prc (set_iter pick (remaining t)) t of
                       Inl e \<Rightarrow> (Inl e, st')
                     | Inr (fixed, t') \<Rightarrow>
                         if fixed then (Inr t', st')
                         else (case force_fix pick pm t' of
                                 Inl e \<Rightarrow> (Inl e, st')
                               | Inr t'' \<Rightarrow> (Inr t'', st'))))))"

text \<open>One iteration of \<open>while remaining: ...\<close>; \<open>queue.pop(0)\<close> raises on an empty list.\<close>

definition safe_step ::
  "'s prng \<Rightarrow> (string list \<Rightarrow> nat) \<Rightarrow> int \<Rightarrow> int \<Rightarrow> (string \<rightharpoonup> cell) \<Rightarrow> sstate \<Rightarrow> 's \<Rightarrow>
   (py_error + sstate) \<times> 's" where
  "safe_step P pick rows cols pm t st =
     (case queue t of
        [] \<Rightarrow> (Inl IndexError, st)
      | u # q \<Rightarrow>
          (case lookup pm u of
             Inl e \<Rightarrow> (Inl e, st)
           | Inr urc \<Rightarrow>
               (case select_adjacent pm (hex_neighbors rows cols (fst urc) (snd urc))
                       (set_iter pick (remaining t)) of
                  Inl e \<Rightarrow> (Inl e, st)
                | Inr nbrs \<Rightarrow>
                    (case bfs_connect u nbrs (t\<lparr>queue := q\<rparr>) of
                       Inl e \<Rightarrow> (Inl e, st)
                     | Inr t' \<Rightarrow>
                         if queue t' = [] \<and> remaining t' \<noteq> []
                         then unstick P pick rows cols pm t' st
                         else (Inr t', st)))))"

text \<open>
  The loop ends: every iteration takes one label off \<open>queue\<close>, and a label enters
  \<open>queue\<close> only when it leaves \<open>remaining\<close>.
\<close>

definition progress :: "sstate \<Rightarrow> nat" where
  "progress t = 2 * length (remaining t) + length (queue t)"

lemma move_to_visited_progress:
  "move_to_visited w t = Inr t' \<Longrightarrow> progress t' < progress t"
proof -
  assume h: "move_to_visited w t = Inr t'"
  then have w: "w \<in> set (remaining t)"
    by (auto simp: move_to_visited_def set_remove_def split: if_splits sum.splits)
  then have "length (removeAll w (remaining t)) < length (remaining t)"
    by (simp add: length_removeAll_less)
  with h w show ?thesis
    by (auto simp: move_to_visited_def set_remove_def progress_def)
qed

lemma move_to_visited_gs: "move_to_visited w t = Inr t' \<Longrightarrow> gs t' = gs t"
  by (auto simp: move_to_visited_def split: sum.splits)

lemma progress_gs [simp]: "progress (t\<lparr>gs := g\<rparr>) = progress t"
  by (simp add: progress_def)

lemma bfs_connect_progress: "bfs_connect u ws t = Inr t' \<Longrightarrow> progress t' \<le> progress t"
proof (induction ws arbitrary: t)
  case Nil
  then show ?case by simp
next
  case (Cons w ws)
  show ?case
  proof (cases "add_edge u w (gs t)")
    case (Inl e)
    with Cons.prems show ?thesis by simp
  next
    case (Inr r)
    obtain ok g' where r: "r = (ok, g')" by (cases r)
    show ?thesis
    proof (cases ok)
      case False
      with Cons Inr r show ?thesis by simp
    next
      case True
      with Cons.prems Inr r obtain t1 where
        m: "move_to_visited w (t\<lparr>gs := g'\<rparr>) = Inr t1" and b: "bfs_connect u ws t1 = Inr t'"
        by (auto split: sum.splits)
      from move_to_visited_progress [OF m] Cons.IH [OF b] show ?thesis by simp
    qed
  qed
qed

lemma try_fix_progress:
  "try_fix rows cols pm p prc ws t = Inr (fixed, t') \<Longrightarrow>
     (if fixed then progress t' < progress t else t' = t)"
proof (induction ws)
  case Nil
  then show ?case by simp
next
  case (Cons w ws)
  show ?case
  proof (cases "lookup pm w")
    case (Inl e)
    with Cons.prems show ?thesis by simp
  next
    case (Inr wrc)
    show ?thesis
    proof (cases "wrc \<in> set (hex_neighbors rows cols (fst prc) (snd prc))")
      case False
      with Cons Inr show ?thesis by simp
    next
      case True
      show ?thesis
      proof (cases "add_edge p w (gs t)")
        case (Inl e)
        with Cons.prems \<open>lookup pm w = Inr wrc\<close> True show ?thesis by simp
      next
        case ae: (Inr r)
        obtain ok g' where r: "r = (ok, g')" by (cases r)
        show ?thesis
        proof (cases ok)
          case False
          with Cons Inr True ae r show ?thesis by simp
        next
          case ok: True
          with Cons.prems Inr True ae r have
            m: "move_to_visited w (t\<lparr>gs := g'\<rparr>) = Inr t'" and f: "fixed"
            by (auto split: sum.splits)
          from move_to_visited_progress [OF m] f show ?thesis by simp
        qed
      qed
    qed
  qed
qed

lemma force_fix_progress: "force_fix pick pm t = Inr t' \<Longrightarrow> progress t' < progress t"
  by (auto simp: force_fix_def split: list.splits sum.splits prod.splits
      dest!: move_to_visited_progress)

lemma unstick_progress:
  assumes "unstick P pick rows cols pm t st = (Inr t', st')"
  shows "progress t' < progress t"
proof -
  from assms obtain p prc fixed t1 where
    tf: "try_fix rows cols pm p prc (set_iter pick (remaining t)) t = Inr (fixed, t1)" and
    rest: "if fixed then t' = t1 else force_fix pick pm t1 = Inr t'"
    by (auto simp: unstick_def split: sum.splits prod.splits if_splits)
  from try_fix_progress [OF tf] rest force_fix_progress [of pick pm t1 t'] show ?thesis
    by (cases fixed) auto
qed

lemma safe_step_progress:
  assumes "safe_step P pick rows cols pm t st = (Inr t', st')"
  shows "progress t' < progress t"
proof -
  from assms obtain u q nbrs t1 where
    q: "queue t = u # q" and
    b: "bfs_connect u nbrs (t\<lparr>queue := q\<rparr>) = Inr t1" and
    rest: "if queue t1 = [] \<and> remaining t1 \<noteq> []
           then unstick P pick rows cols pm t1 st = (Inr t', st') else t' = t1"
    by (auto simp: safe_step_def split: list.splits sum.splits prod.splits if_splits)
  from q have "progress (t\<lparr>queue := q\<rparr>) < progress t"
    by (simp add: progress_def)
  with bfs_connect_progress [OF b] have "progress t1 < progress t"
    by simp
  with rest unstick_progress [of P pick rows cols pm t1 st t' st'] show ?thesis
    by (auto split: if_splits)
qed

function safe_loop ::
  "'s prng \<Rightarrow> (string list \<Rightarrow> nat) \<Rightarrow> int \<Rightarrow> int \<Rightarrow> (string \<rightharpoonup> cell) \<Rightarrow> sstate \<Rightarrow> 's \<Rightarrow>
   (py_error + sstate) \<times> 's" where
  "safe_loop P pick rows cols pm t st =
     (if remaining t = [] then (Inr t, st)
      else (case safe_step P pick rows cols pm t st of
              (Inl e, st') \<Rightarrow> (Inl e, st')
            | (Inr t', st') \<Rightarrow> safe_loop P pick rows cols pm t' st'))"
  by pat_completeness auto
termination
  by (relation "measure (\<lambda>(P, pick, rows, cols, pm, t, st). progress t)")
     (auto dest: safe_step_progress [OF sym])

declare safe_loop.simps [simp del]

text \<open>\<open>generate_planar_graph_safe\<close> itself; its densification probability is \<open>0.30\<close>.\<close>

definition generate_planar_graph_safe ::
  "'s prng \<Rightarrow> (string list \<Rightarrow> nat) \<Rightarrow> int \<Rightarrow> int \<Rightarrow> int \<Rightarrow> int option \<Rightarrow> 's \<Rightarrow>
   (py_error + graph) \<times> 's" where
  "generate_planar_graph_safe P pick rows cols num_nodes seed st =
     (let st0 = reseed P seed st in
      if num_nodes > rows * cols then (Inl (ValueError ''num_nodes must be <= rows*cols''), st0)
      else (case py_sample P st0 (all_cells rows cols) num_nodes of
        Inl e \<Rightarrow> (Inl e, st0)
      | Inr (chosen, st1) \<Rightarrow>
          (case build_pos_map (labels num_nodes) chosen of
             Inl e \<Rightarrow> (Inl e, st1)
           | Inr pm \<Rightarrow>
               (case set_pop pick (py_set (labels num_nodes)) of
                  Inl e \<Rightarrow> (Inl e, st1)
                | Inr (start, rem) \<Rightarrow>
                    (case safe_loop P pick rows cols pm
                            \<lparr>gs = init_gstate (labels num_nodes), remaining = rem,
                             visited = [start], queue = [start]\<rparr> st1 of
                       (Inl e, st2) \<Rightarrow> (Inl e, st2)
                     | (Inr t, st2) \<Rightarrow>
                         (case densify P (edge_prob Planar) rows cols pm (labels num_nodes)
                                 (labels num_nodes) (gs t) st2 of
                            (Inl e, st3) \<Rightarrow> (Inl e, st3)
                          | (Inr s2, st3) \<Rightarrow>
                              (Inr \<lparr>nodes = labels num_nodes, edge_list = edges s2,
                                    pos_map = pm\<rparr>, st3)))))))"


section \<open>Properties of a returned graph\<close>

text \<open>The number of edges that have the label \<open>n\<close> as an endpoint.\<close>

definition incident_count :: "string \<Rightarrow> (string \<times> string) list \<Rightarrow> nat" where
  "incident_count n es = length (filter (\<lambda>e. fst e = n \<or> snd e = n) es)"

text \<open>
  What \<open>add_edge\<close> keeps true of \<open>edges\<close> and \<open>degree\<close>: every entry of \<open>degree\<close> is the
  number of edges at its label and is at most \<open>maxdeg\<close>, and both endpoints of every edge
  are keys of \<open>degree\<close>.
\<close>

definition degree_inv :: "gstate \<Rightarrow> bool" where
  "degree_inv s =
     ((\<forall>n d. degree s n = Some d \<longrightarrow> d = incident_count n (edges s) \<and> d \<le> maxdeg) \<and>
      (\<forall>e\<in>set (edges s). fst e \<in> dom (degree s) \<and> snd e \<in> dom (degree s)))"

text \<open>
  A breadth-first traversal over the edges read in both directions. Every node is taken
  off the queue at most once, so as many rounds as there are nodes complete it.
\<close>

definition adjacent_nodes :: "graph \<Rightarrow> string \<Rightarrow> string list" where
  "adjacent_nodes g u =
     filter (\<lambda>v. (u, v) \<in> set (edge_list g) \<or> (v, u) \<in> set (edge_list g)) (nodes g)"

fun bfs :: "nat \<Rightarrow> graph \<Rightarrow> string list \<Rightarrow> string list \<Rightarrow> string list" where
  "bfs 0 g todo seen = seen"
| "bfs (Suc k) g [] seen = seen"
| "bfs (Suc k) g (u # todo) seen =
     (let new = filter (\<lambda>v. v \<notin> set seen) (adjacent_nodes g u)
      in bfs k g (todo @ new) (seen @ new))"

definition bfs_from :: "graph \<Rightarrow> string \<Rightarrow> string list" where
  "bfs_from g start = bfs (length (nodes g)) g [start] [start]"

definition connected :: "graph \<Rightarrow> bool" where
  "connected g = list_all (\<lambda>start. set (bfs_from g start) = set (nodes g)) (nodes g)"

text \<open>Both endpoints of every edge have a cell, and each cell lists the other.\<close>

definition edges_hex_adjacent :: "int \<Rightarrow> int \<Rightarrow> graph \<Rightarrow> bool" where
  "edges_hex_adjacent rows cols g =
     list_all (\<lambda>e. case (pos_map g (fst e), pos_map g (snd e)) of
                      (Some a, Some b) \<Rightarrow>
                        b \<in> set (hex_neighbors rows cols (fst a) (snd a)) \<and>
                        a \<in> set (hex_neighbors rows cols (fst b) (snd b))
                    | _ \<Rightarrow> False) (edge_list g)"

section \<open>The enable synthesizer\<close>

text \<open>
  \<open>write_testbench\<close> stands in \<open>planar.py\<close>, \<open>11x11_imp/planar.py\<close> and
  \<open>planar_graph_tool_with_testbench.py\<close>. The model keeps what the enable lines say:
  for every line \<open>V_EN_RO_r_c ... val\<close> the cell and the value, for every line
  \<open>V_EN_C_r1_c1__r2_c2 ... on\<close> the pair and the value, in the order written.
\<close>

datatype tb_variant = TB_Planar | TB_11x11 | TB_Tool

type_synonym pair = "int \<times> int \<times> int \<times> int"

record testbench =
  ro_lines :: "(cell \<times> nat) list"
  coupler_lines :: "(pair \<times> nat) list"

text \<open>
  The loop that fills \<open>coupler_pairs\<close>: \<open>(r, c, rr, cc)\<close> is appended unless the reverse
  \<open>(rr, cc, r, c)\<close> is in the list already.
\<close>

definition coupler_candidates :: "int \<Rightarrow> int \<Rightarrow> pair list" where
  "coupler_candidates rows cols =
     concat (map (\<lambda>rc. map (\<lambda>n. (fst rc, snd rc, fst n, snd n))
                          (hex_neighbors rows cols (fst rc) (snd rc)))
                 (all_cells rows cols))"

fun add_pairs :: "pair list \<Rightarrow> pair list \<Rightarrow> pair list" where
  "add_pairs acc [] = acc"
| "add_pairs acc ((r, c, rr, cc) # ps) =
     add_pairs (if (rr, cc, r, c) \<in> set acc then acc else acc @ [(r, c, rr, cc)]) ps"

definition coupler_pairs :: "int \<Rightarrow> int \<Rightarrow> pair list" where
  "coupler_pairs rows cols = add_pairs [] (coupler_candidates rows cols)"

text \<open>\<open>rev = {pos_map[n]: n for n in nodes}\<close>: a later node replaces an earlier one.\<close>

fun build_rev ::
  "(string \<rightharpoonup> cell) \<Rightarrow> (cell \<rightharpoonup> string) \<Rightarrow> string list \<Rightarrow> py_error + (cell \<rightharpoonup> string)" where
  "build_rev pm acc [] = Inr acc"
| "build_rev pm acc (n # ns) =
     (case lookup pm n of
        Inl e \<Rightarrow> Inl e
      | Inr rc \<Rightarrow> build_rev pm (acc(rc \<mapsto> n)) ns)"

text \<open>\<open>edge_set = set(tuple(sorted(e)) for e in edges)\<close>\<close>

definition edge_set :: "(string \<times> string) list \<Rightarrow> (string \<times> string) list" where
  "edge_set es = map (\<lambda>e. sorted2 (fst e) (snd e)) es"

text \<open>
  The cell's value. \<open>planar.py\<close> writes the constant 1;
  \<open>planar_graph_tool_with_testbench.py\<close> has \<open>val = 1 #if (r, c) in active else 0\<close>;
  \<open>11x11_imp/planar.py\<close> has \<open>node = rev.get((r, c)); val = 1 if node in nodes else 0\<close>.
\<close>

fun ro_value :: "tb_variant \<Rightarrow> string list \<Rightarrow> (cell \<rightharpoonup> string) \<Rightarrow> cell \<Rightarrow> nat" where
  "ro_value TB_11x11 ns rv rc =
     (case rv rc of None \<Rightarrow> 0 | Some node \<Rightarrow> if node \<in> set ns then 1 else 0)"
| "ro_value tv ns rv rc = 1"

text \<open>
  The pair's value. \<open>planar.py\<close> and \<open>11x11_imp/planar.py\<close> have
  \<open>1 if u and v and tuple(sorted((u, v))) in edge_set else 0\<close>, where a label is true
  when it is not \<open>None\<close> and not the empty string;
  \<open>planar_graph_tool_with_testbench.py\<close> tests \<open>u is not None and v is not None\<close>.
\<close>

definition truthy :: "string option \<Rightarrow> bool" where
  "truthy u = (case u of None \<Rightarrow> False | Some x \<Rightarrow> x \<noteq> [])"

fun coupler_value ::
  "tb_variant \<Rightarrow> (cell \<rightharpoonup> string) \<Rightarrow> (string \<times> string) list \<Rightarrow> pair \<Rightarrow> nat" where
  "coupler_value TB_Tool rv eset (r1, c1, r2, c2) =
     (case (rv (r1, c1), rv (r2, c2)) of
        (Some u, Some v) \<Rightarrow> if sorted2 u v \<in> set eset then 1 else 0
      | _ \<Rightarrow> 0)"
| "coupler_value tv rv eset (r1, c1, r2, c2) =
     (case (rv (r1, c1), rv (r2, c2)) of
        (Some u, Some v) \<Rightarrow>
          if truthy (Some u) \<and> truthy (Some v) \<and> sorted2 u v \<in> set eset then 1 else 0
      | _ \<Rightarrow> 0)"

definition write_testbench ::
  "tb_variant \<Rightarrow> int \<Rightarrow> int \<Rightarrow> string list \<Rightarrow> (string \<times> string) list \<Rightarrow> (string \<rightharpoonup> cell) \<Rightarrow>
   py_error + testbench" where
  "write_testbench tv rows cols ns es pm =
     (case build_rev pm Map.empty ns of
        Inl e \<Rightarrow> Inl e
      | Inr rv \<Rightarrow>
          Inr \<lparr>ro_lines = map (\<lambda>rc. (rc, ro_value tv ns rv rc)) (all_cells rows cols),
               coupler_lines = map (\<lambda>p. (p, coupler_value tv rv (edge_set es) p))
                                   (sort (coupler_pairs rows cols))\<rparr>)"

section \<open>The netlist parsers of the verifier\<close>

text \<open>
  Characters are bytes here: \<open>str.split()\<close> and \<open>\d\<close> are modelled on ASCII, where the
  whitespace characters are 9 to 13, 28 to 31 and 32 and the digits are 48 to 57.
\<close>

definition is_space :: "char \<Rightarrow> bool" where
  "is_space ch = (let k = (of_char ch :: nat) in (9 \<le> k \<and> k \<le> 13) \<or> (28 \<le> k \<and> k \<le> 32))"

definition is_digit :: "char \<Rightarrow> bool" where
  "is_digit ch = (let k = (of_char ch :: nat) in 48 \<le> k \<and> k \<le> 57)"

fun split_ws :: "string \<Rightarrow> string \<Rightarrow> string list" where
  "split_ws cur [] = (if cur = [] then [] else [cur])"
| "split_ws cur (ch # cs) =
     (if is_space ch then (if cur = [] then split_ws [] cs else cur # split_ws [] cs)
      else split_ws (cur @ [ch]) cs)"

definition py_split :: "string \<Rightarrow> string list" where
  "py_split line = split_ws [] line"

fun starts_with :: "string \<Rightarrow> string \<Rightarrow> bool" where
  "starts_with [] s = True"
| "starts_with (p # ps) [] = False"
| "starts_with (p # ps) (ch # cs) = (p = ch \<and> starts_with ps cs)"

text \<open>\<open>sub in line\<close>\<close>

fun contains :: "string \<Rightarrow> string \<Rightarrow> bool" where
  "contains sub [] = (sub = [])"
| "contains sub (ch # cs) = (starts_with sub (ch # cs) \<or> contains sub cs)"

text \<open>
  \<open>re.match\<close> anchors at the start of the string and accepts any rest. A group \<open>(\d+)\<close>
  followed by a non-digit literal takes the whole run of digits: a shorter run would be
  followed by a digit.
\<close>

definition match_lit :: "string \<Rightarrow> string \<Rightarrow> string option" where
  "match_lit lit s = (if starts_with lit s then Some (drop (length lit) s) else None)"

definition match_digits :: "string \<Rightarrow> (string \<times> string) option" where
  "match_digits s =
     (if takeWhile is_digit s = [] then None else Some (takeWhile is_digit s, dropWhile is_digit s))"

definition int_of_digits :: "string \<Rightarrow> int" where
  "int_of_digits ds = foldl (\<lambda>a ch. 10 * a + (int (of_char ch) - 48)) 0 ds"

text \<open>The pattern \<open>(\d+)_(\d+)\<close> at the start of a string: its two groups and the rest.\<close>

definition match_number_pair :: "string \<Rightarrow> (string \<times> string \<times> string) option" where
  "match_number_pair s =
     (case match_digits s of
        None \<Rightarrow> None
      | Some (d1, s1) \<Rightarrow>
          (case match_lit ''_'' s1 of
             None \<Rightarrow> None
           | Some s2 \<Rightarrow>
               (case match_digits s2 of
                  None \<Rightarrow> None
                | Some (d2, s3) \<Rightarrow> Some (d1, d2, s3))))"

text \<open>\<open>re.match(r"XRO_(\d+)_(\d+)", inst)\<close> and its groups.\<close>

definition match_xro :: "string \<Rightarrow> (string \<times> string) option" where
  "match_xro inst =
     (case match_lit ''XRO_'' inst of
        None \<Rightarrow> None
      | Some s1 \<Rightarrow>
          (case match_number_pair s1 of
             None \<Rightarrow> None
           | Some (d1, d2, s2) \<Rightarrow> Some (d1, d2)))"

text \<open>\<open>re.match(r"XCPL_(\d+)_(\d+)__(\d+)_(\d+)", inst)\<close> and its groups.\<close>

definition match_xcpl :: "string \<Rightarrow> (string \<times> string \<times> string \<times> string) option" where
  "match_xcpl inst =
     (case match_lit ''XCPL_'' inst of
        None \<Rightarrow> None
      | Some s1 \<Rightarrow>
          (case match_number_pair s1 of
             None \<Rightarrow> None
           | Some (d1, d2, s2) \<Rightarrow>
               (case match_lit ''__'' s2 of
                  None \<Rightarrow> None
                | Some s3 \<Rightarrow>
                    (case match_number_pair s3 of
                       None \<Rightarrow> None
                     | Some (d3, d4, s4) \<Rightarrow> Some (d1, d2, d3, d4)))))"

text \<open>
  \<open>parse_ring_instance\<close>: \<open>tokens[1:8]\<close> is a slice and never raises; \<open>tokens[0]\<close> and
  \<open>tokens[8]\<close> raise \<open>IndexError\<close> when the list is too short.
\<close>

definition parse_ring_instance ::
  "string \<Rightarrow> py_error + (int \<times> int \<times> string list \<times> string) option" where
  "parse_ring_instance line =
     (if \<not> contains ''RING_OSC'' line then Inr None
      else (case py_split line of
        [] \<Rightarrow> Inl IndexError
      | inst # rest \<Rightarrow>
          (case match_xro inst of
             None \<Rightarrow> Inr None
           | Some (d1, d2) \<Rightarrow>
               if length (inst # rest) \<le> 8 then Inl IndexError
               else Inr (Some (int_of_digits d1, int_of_digits d2, take 7 rest,
                               (inst # rest) ! 8)))))"

text \<open>\<open>parse_coupler_instance\<close>: \<open>tokens[1]\<close>, \<open>tokens[2]\<close> and \<open>tokens[3]\<close> are read.\<close>

definition parse_coupler_instance ::
  "string \<Rightarrow> py_error + (int \<times> int \<times> int \<times> int \<times> string \<times> string \<times> string) option" where
  "parse_coupler_instance line =
     (if \<not> contains ''COUPLING'' line then Inr None
      else (case py_split line of
        [] \<Rightarrow> Inl IndexError
      | inst # rest \<Rightarrow>
          (case match_xcpl inst of
             None \<Rightarrow> Inr None
           | Some (d1, d2, d3, d4) \<Rightarrow>
               if length (inst # rest) \<le> 3 then Inl IndexError
               else Inr (Some (int_of_digits d1, int_of_digits d2, int_of_digits d3,
                               int_of_digits d4, rest ! 0, rest ! 1, rest ! 2)))))"

section \<open>Concrete generators and orders for the examples\<close>

text \<open>
  A generator whose state counts the calls made since the seeding: \<open>random.seed(s)\<close>
  sets the counter to \<open>s\<close>, a sample is the start of the population rotated by the
  counter.
\<close>

definition counter_prng :: "nat prng" where
  "counter_prng =
     \<lparr>seed_fn = (\<lambda>s. nat s),
      sample_fn = (\<lambda>st population k. (take k (rotate st population), Suc st)),
      choice_fn = (\<lambda>st n. (st, Suc st)),
      random_fn = (\<lambda>st. (0, Suc st))\<rparr>"

text \<open>A generator that samples a given placement and never passes the density test.\<close>

definition fixed_prng :: "cell list \<Rightarrow> unit prng" where
  "fixed_prng placement =
     \<lparr>seed_fn = (\<lambda>s. ()),
      sample_fn = (\<lambda>st population k. (take k placement, st)),
      choice_fn = (\<lambda>st n. (0, st)),
      random_fn = (\<lambda>st. (1, st))\<rparr>"

text \<open>The order in which a set is met: here the order of insertion.\<close>

definition first_pick :: "string list \<Rightarrow> nat" where
  "first_pick xs = 0"

definition isolated_placement :: "cell list" where
  "isolated_placement = [(5, 5), (5, 0), (5, 10), (0, 5), (10, 5), (5, 3), (5, 7), (3, 5)]"

section \<open>Properties of the topology\<close>

lemma hex_neighbors_iff:
  "(q \<in> set (hex_neighbors rows cols r c)) = (in_grid rows cols q \<and> hex_adjacent (r, c) q)"
proof (cases "r mod 2 = 0")
  case True
  then have "hex_neighbors rows cols r c = filter (in_grid rows cols)
      [(r, c - 1), (r, c + 1), (r - 1, c - 1), (r - 1, c), (r + 1, c - 1), (r + 1, c)]"
    by (simp add: hex_neighbors_def)
  then have "(q \<in> set (hex_neighbors rows cols r c)) = (in_grid rows cols q \<and>
      q \<in> {(r, c - 1), (r, c + 1), (r - 1, c - 1), (r - 1, c), (r + 1, c - 1), (r + 1, c)})"
    by auto
  with True show ?thesis
    unfolding hex_adjacent_def by (cases q) auto
next
  case False
  then have "hex_neighbors rows cols r c = filter (in_grid rows cols)
      [(r, c - 1), (r, c + 1), (r - 1, c), (r - 1, c + 1), (r + 1, c), (r + 1, c + 1)]"
    by (simp add: hex_neighbors_def)
  then have "(q \<in> set (hex_neighbors rows cols r c)) = (in_grid rows cols q \<and>
      q \<in> {(r, c - 1), (r, c + 1), (r - 1, c), (r - 1, c + 1), (r + 1, c), (r + 1, c + 1)})"
    by auto
  with False show ?thesis
    unfolding hex_adjacent_def by (cases q) auto
qed

lemma hex_adjacent_sym:
  assumes "hex_adjacent a b"
  shows "hex_adjacent b a"
proof -
  obtain r1 c1 where a: "a = (r1, c1)" by (cases a)
  obtain r2 c2 where b: "b = (r2, c2)" by (cases b)
  show ?thesis
  proof (cases "r1 mod 2 = 0")
    case True
    then have "(r1 + 1) mod 2 \<noteq> 0" and "(r1 - 1) mod 2 \<noteq> 0"
      by presburger+
    with True assms show ?thesis
      unfolding hex_adjacent_def a b by auto
  next
    case False
    then have "(r1 + 1) mod 2 = 0" and "(r1 - 1) mod 2 = 0"
      by presburger+
    with False assms show ?thesis
      unfolding hex_adjacent_def a b by auto
  qed
qed

lemma neighbors_eq_hex_neighbors: "neighbors rows cols r c = hex_neighbors rows cols r c"
  by (simp add: neighbors_def hex_neighbors_def)

text \<open>
  C10. The hex adjacency relation is symmetric on in-range cells: \<open>b\<close> is listed by
  \<open>hex_neighbors\<close> at \<open>a\<close> exactly when \<open>a\<close> is listed at \<open>b\<close>, and likewise for the
  \<open>neighbors\<close> of \<open>generate_hex_network\<close>.
\<close>

theorem hex_neighbors_symmetric:
  assumes "in_grid rows cols (r1, c1)" and "in_grid rows cols (r2, c2)"
  shows "((r2, c2) \<in> set (hex_neighbors rows cols r1 c1)) =
           ((r1, c1) \<in> set (hex_neighbors rows cols r2 c2))
       \<and> ((r2, c2) \<in> set (neighbors rows cols r1 c1)) =
           ((r1, c1) \<in> set (neighbors rows cols r2 c2))"
  using assms hex_adjacent_sym [of "(r1, c1)" "(r2, c2)"] hex_adjacent_sym [of "(r2, c2)" "(r1, c1)"]
  by (auto simp: neighbors_eq_hex_neighbors hex_neighbors_iff)

theorem hex_neighbors_symmetric_witness:
  "in_grid 3 3 (1, 1) \<and> in_grid 3 3 (0, 2)
   \<and> (0, 2) \<in> set (hex_neighbors 3 3 1 1) \<and> (1, 1) \<in> set (hex_neighbors 3 3 0 2)
   \<and> (0, 2) \<in> set (neighbors 3 3 1 1) \<and> (1, 1) \<in> set (neighbors 3 3 0 2)"
proof -
  have g: "in_grid 3 3 (1, 1)" "in_grid 3 3 (0, 2)"
    by (simp_all add: in_grid_def)
  have m: "(0, 2) \<in> set (hex_neighbors 3 3 1 1)"
    by (simp add: hex_neighbors_def in_grid_def)
  have m': "(0, 2) \<in> set (neighbors 3 3 1 1)"
    by (simp add: neighbors_def in_grid_def)
  from hex_neighbors_symmetric [OF g] m m' g show ?thesis
    by simp
qed

text \<open>
  C1. The Verifier's \<open>expected_neighbors\<close> is claimed to equal the Generator's
  \<open>hex_neighbors\<close> as a set at every in-range cell. On the 2 x 2 grid at cell (0, 0)
  the Verifier expects (1, 1), which the Generator does not list.
\<close>

theorem expected_neighbors_differs:
  "in_grid 2 2 (0, 0)
   \<and> hex_neighbors 2 2 0 0 = [(0, 1), (1, 0)]
   \<and> expected_neighbors 2 2 0 0 = [(0, 1), (1, 0), (1, 1)]
   \<and> set (expected_neighbors 2 2 0 0) \<noteq> set (hex_neighbors 2 2 0 0)"
proof -
  have h: "hex_neighbors 2 2 0 0 = [(0, 1), (1, 0)]"
    by (simp add: in_grid_def hex_neighbors_def)
  have e: "expected_neighbors 2 2 0 0 = [(0, 1), (1, 0), (1, 1)]"
    by (simp add: in_grid_def expected_neighbors_def)
  have "(1, 1) \<in> set (expected_neighbors 2 2 0 0)" and "(1, 1) \<notin> set (hex_neighbors 2 2 0 0)"
    by (simp_all add: h e)
  then have "set (expected_neighbors 2 2 0 0) \<noteq> set (hex_neighbors 2 2 0 0)"
    by metis
  with h e show ?thesis
    by (simp add: in_grid_def)
qed

section \<open>The parsers raise on truncated lines\<close>

text \<open>
  C9. The parsers are claimed to return a result or \<open>None\<close> on every line and never to
  raise. A line that holds only the instance name and the subcircuit tag passes the tag
  test and the name pattern, and the read of \<open>tokens[8]\<close> (\<open>tokens[1]\<close> for a coupler)
  raises \<open>IndexError\<close>.
\<close>

theorem parsers_raise_on_short_line:
  "parse_ring_instance ''XRO_1_2 RING_OSC'' = Inl IndexError
   \<and> parse_coupler_instance ''XCPL_1_2__1_3 COUPLING'' = Inl IndexError"
  by code_simp

section \<open>Capacity check\<close>

lemma capacity_exceeded_2_2_5: "capacity_exceeded v 2 2 5"
  by (cases v) simp_all

lemma generate_capacity:
  assumes "capacity_exceeded v rows cols n"
  shows "generate_planar_graph fuel v P pick rows cols n seed st =
           (Some (Inl (ValueError (capacity_msg v))), reseed P seed st)"
  using assms by (simp add: generate_planar_graph.simps attempt_def)

lemma generate_safe_capacity:
  assumes "n > rows * cols"
  shows "generate_planar_graph_safe P pick rows cols n seed st =
           (Inl (ValueError ''num_nodes must be <= rows*cols''), reseed P seed st)"
  using assms by (simp add: generate_planar_graph_safe_def)

text \<open>
  C8. \<open>generate(2, 2, 5, seed)\<close> fails with the capacity error for every seed, in every
  variant; and whenever the capacity test fails, the call ends in that error with the
  generator state it had right after the seeding: no cell was sampled, and no graph
  (labels, edges) is part of the result.
\<close>

theorem capacity_rejection:
  "fst (generate_planar_graph fuel v P pick 2 2 5 seed st) =
     Some (Inl (ValueError (capacity_msg v)))
   \<and> fst (generate_planar_graph_safe P pick 2 2 5 seed st) =
     Inl (ValueError ''num_nodes must be <= rows*cols'')
   \<and> (capacity_exceeded v rows cols n \<longrightarrow>
        generate_planar_graph fuel v P pick rows cols n seed st =
          (Some (Inl (ValueError (capacity_msg v))), reseed P seed st))
   \<and> (n > rows * cols \<longrightarrow>
        generate_planar_graph_safe P pick rows cols n seed st =
          (Inl (ValueError ''num_nodes must be <= rows*cols''), reseed P seed st))"
  by (simp add: generate_capacity generate_safe_capacity capacity_exceeded_2_2_5)

theorem capacity_rejection_witness:
  "capacity_exceeded Generate_Graphs 3 3 9
   \<and> generate_planar_graph 0 Generate_Graphs counter_prng first_pick 3 3 9 (Some 7) 0 =
       (Some (Inl (ValueError ''Number of nodes must be strictly less than rows*cols'')), 7)
   \<and> (10::int) > 3 * 3
   \<and> generate_planar_graph_safe counter_prng first_pick 3 3 10 (Some 7) 0 =
       (Inl (ValueError ''num_nodes must be <= rows*cols''), 7)"
  using capacity_rejection [of 0 Generate_Graphs counter_prng first_pick "Some 7" 0 3 3 9]
    capacity_rejection [of 0 Generate_Graphs counter_prng first_pick "Some 7" 0 3 3 10]
  by (simp add: reseed_def counter_prng_def)

section \<open>The restart repeats the failed placement\<close>

lemma restart_forever:
  assumes "attempt v P pick rows cols n (seed_fn P s) = (Restart, st')"
  shows "generate_planar_graph fuel v P pick rows cols n (Some s) st = (None, st')"
proof (induction fuel arbitrary: st)
  case 0
  from assms show ?case
    by (simp add: generate_planar_graph.simps reseed_def)
next
  case (Suc k)
  from assms Suc.IH [of st'] show ?case
    by (simp add: generate_planar_graph.simps [of "Suc k"] reseed_def)
qed

lemma attempt_isolated_eval:
  "(case attempt Planar counter_prng first_pick 1 3 2 2 of
      (Restart, st') \<Rightarrow> st' = 3 | (other, st') \<Rightarrow> False)
   \<and> (case attempt Generate_Graphs counter_prng first_pick 1 3 2 2 of
      (Restart, st') \<Rightarrow> st' = 3 | (other, st') \<Rightarrow> False)
   \<and> (case attempt Graph_Tool counter_prng first_pick 1 3 2 2 of
      (Restart, st') \<Rightarrow> st' = 3 | (other, st') \<Rightarrow> False)
   \<and> (case attempt Graph_Tool_Testbench counter_prng first_pick 1 3 2 2 of
      (Restart, st') \<Rightarrow> st' = 3 | (other, st') \<Rightarrow> False)"
  by code_simp

lemma attempt_isolated:
  "attempt v counter_prng first_pick 1 3 2 2 = (Restart, 3)"
  using attempt_isolated_eval
  by (cases v) (auto split: prod.splits outcome.splits)

lemma attempt_next_eval:
  "(case attempt Planar counter_prng first_pick 1 3 2 3 of
      (Done g, st') \<Rightarrow> True | (other, st') \<Rightarrow> False)
   \<and> (case attempt Generate_Graphs counter_prng first_pick 1 3 2 3 of
      (Done g, st') \<Rightarrow> True | (other, st') \<Rightarrow> False)
   \<and> (case attempt Graph_Tool counter_prng first_pick 1 3 2 3 of
      (Done g, st') \<Rightarrow> True | (other, st') \<Rightarrow> False)
   \<and> (case attempt Graph_Tool_Testbench counter_prng first_pick 1 3 2 3 of
      (Done g, st') \<Rightarrow> True | (other, st') \<Rightarrow> False)"
  by code_simp

lemma attempt_next:
  "\<exists>g st'. attempt v counter_prng first_pick 1 3 2 3 = (Done g, st')"
  using attempt_next_eval
  by (cases v) (auto split: prod.splits outcome.splits)

text \<open>
  C6. \<open>generate\<close> is claimed to terminate for every valid input and seed, a retry
  drawing a different placement. With a generator that seed 2 sends to a state whose
  sample of two cells of the 1 x 3 grid is (0, 2), (0, 0), the spanning phase finds no
  visited neighbour and the self-call seeds again with 2: the same sample is drawn,
  and no number of self-calls reaches a return. Started from the same state with no
  seed given, the second pass draws another placement and returns.
\<close>

theorem restart_with_seed_never_returns:
  "fst (sample_fn counter_prng (reseed counter_prng (Some 2) st) (all_cells 1 3) 2) =
     [(0, 2), (0, 0)]
   \<and> generate_planar_graph fuel v counter_prng first_pick 1 3 2 (Some 2) st = (None, 3)
   \<and> fst (generate_planar_graph 0 v counter_prng first_pick 1 3 2 None 2) = None
   \<and> fst (generate_planar_graph 1 v counter_prng first_pick 1 3 2 None 2) \<noteq> None"
proof -
  have a: "fst (sample_fn counter_prng (reseed counter_prng (Some 2) st) (all_cells 1 3) 2) =
     [(0, 2), (0, 0)]"
    by code_simp
  have s: "attempt v counter_prng first_pick 1 3 2 (seed_fn counter_prng 2) = (Restart, 3)"
    using attempt_isolated [of v] by (simp add: counter_prng_def)
  have b: "generate_planar_graph fuel v counter_prng first_pick 1 3 2 (Some 2) st = (None, 3)"
    by (rule restart_forever [OF s])
  have c: "fst (generate_planar_graph 0 v counter_prng first_pick 1 3 2 None 2) = None"
    by (simp add: generate_planar_graph.simps reseed_def attempt_isolated)
  from attempt_next [of v] obtain g st' where
    "attempt v counter_prng first_pick 1 3 2 3 = (Done g, st')"
    by blast
  then have d: "fst (generate_planar_graph 1 v counter_prng first_pick 1 3 2 None 2) \<noteq> None"
    by (simp add: generate_planar_graph.simps [of _ _ _ _ _ _ _ None] reseed_def attempt_isolated)
  from a b c d show ?thesis
    by simp
qed

section \<open>The last-resort repair of the generator without restarts\<close>

text \<open>
  C3. Every returned graph is claimed to be connected. On the 11 x 11 grid with eight
  nodes, node 0 at (5, 5) and the others at (5, 0), (5, 10), (0, 5), (10, 5), (5, 3),
  (5, 7), (3, 5), no two cells are neighbours, and each cell other than the first is
  nearest to (5, 5) among those placed before it. The repair branch gives node 0 six
  edges; for node 7 \<open>add_edge\<close> refuses the seventh, its value is not looked at, and
  node 7 is moved to \<open>visited\<close> with no edge. The graph returned has node 7 isolated.
\<close>

theorem safe_variant_returns_disconnected:
  "\<exists>g. fst (generate_planar_graph_safe (fixed_prng isolated_placement) first_pick
              11 11 8 (Some 1) ()) = Inr g
     \<and> nodes g = [''0'', ''1'', ''2'', ''3'', ''4'', ''5'', ''6'', ''7'']
     \<and> edge_list g = [(''0'', ''1''), (''0'', ''2''), (''0'', ''3''), (''0'', ''4''),
                      (''0'', ''5''), (''0'', ''6'')]
     \<and> bfs_from g ''7'' = [''7'']
     \<and> bfs_from g ''0'' = [''0'', ''1'', ''2'', ''3'', ''4'', ''5'', ''6'']
     \<and> \<not> connected g"
proof -
  have "case fst (generate_planar_graph_safe (fixed_prng isolated_placement) first_pick
                   11 11 8 (Some 1) ()) of
          Inl e \<Rightarrow> False
        | Inr g \<Rightarrow>
            nodes g = [''0'', ''1'', ''2'', ''3'', ''4'', ''5'', ''6'', ''7'']
            \<and> edge_list g = [(''0'', ''1''), (''0'', ''2''), (''0'', ''3''), (''0'', ''4''),
                             (''0'', ''5''), (''0'', ''6'')]
            \<and> bfs_from g ''7'' = [''7'']
            \<and> bfs_from g ''0'' = [''0'', ''1'', ''2'', ''3'', ''4'', ''5'', ''6'']
            \<and> \<not> connected g"
    by code_simp
  then show ?thesis
    by (auto split: sum.splits)
qed

text \<open>
  C4. The cells of the two endpoints of every edge are claimed to be neighbours,
  repair edges included. On the 1 x 3 grid with two nodes at (0, 0) and (0, 2) the
  search is stuck at once, and the repair branch joins the two nodes, whose cells are
  two columns apart.
\<close>

theorem safe_variant_edge_not_adjacent:
  "\<exists>g. fst (generate_planar_graph_safe (fixed_prng [(0, 0), (0, 2)]) first_pick
              1 3 2 (Some 1) ()) = Inr g
     \<and> edge_list g = [(''0'', ''1'')]
     \<and> pos_map g ''0'' = Some (0, 0) \<and> pos_map g ''1'' = Some (0, 2)
     \<and> hex_neighbors 1 3 0 0 = [(0, 1)]
     \<and> \<not> edges_hex_adjacent 1 3 g"
proof -
  have "case fst (generate_planar_graph_safe (fixed_prng [(0, 0), (0, 2)]) first_pick
                   1 3 2 (Some 1) ()) of
          Inl e \<Rightarrow> False
        | Inr g \<Rightarrow>
            edge_list g = [(''0'', ''1'')]
            \<and> pos_map g ''0'' = Some (0, 0) \<and> pos_map g ''1'' = Some (0, 2)
            \<and> hex_neighbors 1 3 0 0 = [(0, 1)]
            \<and> \<not> edges_hex_adjacent 1 3 g"
    by code_simp
  then show ?thesis
    by (auto split: sum.splits)
qed

section \<open>The enable values\<close>

lemma set_py_range: "set (py_range n) = {i. 0 \<le> i \<and> i < n}"
proof -
  have "i \<in> int ` {0..<nat n}" if "0 \<le> i" "i < n" for i
  proof -
    from that have "nat i \<in> {0..<nat n}" and "int (nat i) = i"
      by auto
    then show ?thesis
      by (metis imageI)
  qed
  then show ?thesis
    by (auto simp: py_range_def)
qed

lemma set_all_cells: "set (all_cells rows cols) = {rc. in_grid rows cols rc}"
  by (auto simp: all_cells_def set_py_range in_grid_def)

lemma build_rev_Some:
  "build_rev pm acc ns = Inr rv \<Longrightarrow> rv rc = Some n \<Longrightarrow>
     (n \<in> set ns \<and> pm n = Some rc) \<or> acc rc = Some n"
proof (induction ns arbitrary: acc)
  case Nil
  then show ?case by simp
next
  case (Cons m ms)
  from Cons.prems(1) obtain c where c: "pm m = Some c" and
    b: "build_rev pm (acc(c \<mapsto> m)) ms = Inr rv"
    by (auto simp: lookup_def split: option.splits)
  from Cons.IH [OF b Cons.prems(2)] c show ?case
    by (auto split: if_splits)
qed

lemma build_rev_None:
  "build_rev pm acc ns = Inr rv \<Longrightarrow> rv rc = None \<Longrightarrow>
     acc rc = None \<and> (\<forall>n\<in>set ns. pm n \<noteq> Some rc)"
proof (induction ns arbitrary: acc)
  case Nil
  then show ?case by simp
next
  case (Cons m ms)
  from Cons.prems(1) obtain c where c: "pm m = Some c" and
    b: "build_rev pm (acc(c \<mapsto> m)) ms = Inr rv"
    by (auto simp: lookup_def split: option.splits)
  from Cons.IH [OF b Cons.prems(2)] c show ?case
    by (auto split: if_splits)
qed

lemma ro_value_11x11:
  assumes "build_rev pm Map.empty ns = Inr rv"
  shows "ro_value TB_11x11 ns rv rc = (if \<exists>n\<in>set ns. pm n = Some rc then 1 else 0)"
proof (cases "rv rc")
  case None
  with build_rev_None [OF assms None] show ?thesis
    by auto
next
  case (Some n)
  with build_rev_Some [OF assms Some] show ?thesis
    by auto
qed

text \<open>
  C7, as amended. Every variant writes one value for every cell of the grid, the cells
  in row-major order. In \<open>11x11_imp/planar.py\<close> the value is 1 exactly when some node
  occupies the cell; in \<open>planar.py\<close> and \<open>planar_graph_tool_with_testbench.py\<close> the
  value is 1 for every cell.
\<close>

theorem ro_enable_values:
  assumes "write_testbench tv rows cols ns es pm = Inr tb"
  shows "map fst (ro_lines tb) = all_cells rows cols
       \<and> set (map fst (ro_lines tb)) = {rc. in_grid rows cols rc}
       \<and> (\<forall>(rc, val) \<in> set (ro_lines tb).
            val = (if tv = TB_11x11 then (if \<exists>n\<in>set ns. pm n = Some rc then 1 else 0) else 1))"
proof -
  from assms obtain rv where rv: "build_rev pm Map.empty ns = Inr rv" and
    tb: "ro_lines tb = map (\<lambda>rc. (rc, ro_value tv ns rv rc)) (all_cells rows cols)"
    by (auto simp: write_testbench_def split: sum.splits)
  have cells: "map fst (ro_lines tb) = all_cells rows cols"
    by (simp add: tb comp_def)
  have "ro_value tv ns rv rc =
          (if tv = TB_11x11 then (if \<exists>n\<in>set ns. pm n = Some rc then 1 else 0) else 1)" for rc
    using ro_value_11x11 [OF rv, of rc] by (cases tv) simp_all
  then have "\<forall>(rc, val) \<in> set (ro_lines tb).
      val = (if tv = TB_11x11 then (if \<exists>n\<in>set ns. pm n = Some rc then 1 else 0) else 1)"
    by (auto simp: tb)
  with cells set_all_cells [of rows cols] show ?thesis
    by simp
qed

theorem ro_enable_values_witness:
  "\<exists>tb. write_testbench TB_11x11 1 2 [''0''] [] [''0'' \<mapsto> (0, 0)] = Inr tb
     \<and> ro_lines tb = [((0, 0), 1), ((0, 1), 0)]
     \<and> map fst (ro_lines tb) = all_cells 1 2"
proof -
  have "case write_testbench TB_11x11 1 2 [''0''] [] [''0'' \<mapsto> (0, 0)] of
          Inl e \<Rightarrow> False | Inr tb \<Rightarrow> ro_lines tb = [((0, 0), 1), ((0, 1), 0)]"
    by code_simp
  then obtain tb where
    tb: "write_testbench TB_11x11 1 2 [''0''] [] [''0'' \<mapsto> (0, 0)] = Inr tb" and
    ls: "ro_lines tb = [((0, 0), 1), ((0, 1), 0)]"
    by (auto split: sum.splits)
  from ro_enable_values [OF tb] ls tb show ?thesis
    by simp
qed

text \<open>
  C7 as stated fails for \<open>planar.py\<close>: with one node at (0, 0) on the 1 x 2 grid, the
  line of the unoccupied cell (0, 1) carries the value 1.
\<close>

theorem ro_enable_counterexample:
  "\<exists>tb. write_testbench TB_Planar 1 2 [''0''] [] [''0'' \<mapsto> (0, 0)] = Inr tb
     \<and> ro_lines tb = [((0, 0), 1), ((0, 1), 1)]
     \<and> \<not> (\<exists>n\<in>set [''0'']. [''0'' \<mapsto> (0 :: int, 0 :: int)] n = Some (0, 1))"
proof -
  have "case write_testbench TB_Planar 1 2 [''0''] [] [''0'' \<mapsto> (0, 0)] of
          Inl e \<Rightarrow> False | Inr tb \<Rightarrow> ro_lines tb = [((0, 0), 1), ((0, 1), 1)]"
    by code_simp
  then show ?thesis
    by (auto split: sum.splits)
qed

subsection \<open>Pair enables\<close>

lemma str_nat_nonempty: "str_nat n \<noteq> []"
  by (subst str_nat.simps) simp

lemma labels_nonempty: "u \<in> set (labels n) \<Longrightarrow> u \<noteq> []"
  by (auto simp: labels_def str_nat_nonempty)

lemma sorted2_eq_iff:
  "(sorted2 a b = sorted2 u v) = ((a = u \<and> b = v) \<or> (a = v \<and> b = u))"
  by (auto simp: sorted2_def split: if_splits)

lemma edge_set_member:
  "(sorted2 u v \<in> set (edge_set es)) = ((u, v) \<in> set es \<or> (v, u) \<in> set es)"
proof -
  have "(sorted2 u v \<in> set (edge_set es)) = (\<exists>e\<in>set es. sorted2 u v = sorted2 (fst e) (snd e))"
    by (simp add: edge_set_def image_iff)
  also have "\<dots> = (\<exists>e\<in>set es. (u = fst e \<and> v = snd e) \<or> (u = snd e \<and> v = fst e))"
    by (simp only: sorted2_eq_iff)
  also have "\<dots> = ((u, v) \<in> set es \<or> (v, u) \<in> set es)"
    by force
  finally show ?thesis .
qed

lemma build_rev_keep:
  "build_rev pm acc ns = Inr rv \<Longrightarrow> \<forall>n\<in>set ns. pm n \<noteq> Some rc \<Longrightarrow> rv rc = acc rc"
proof (induction ns arbitrary: acc)
  case Nil
  then show ?case by simp
next
  case (Cons m ms)
  from Cons.prems(1) obtain c where c: "pm m = Some c" and
    b: "build_rev pm (acc(c \<mapsto> m)) ms = Inr rv"
    by (auto simp: lookup_def split: option.splits)
  from Cons.prems(2) have "\<forall>n\<in>set ms. pm n \<noteq> Some rc" and "c \<noteq> rc"
    using c by auto
  with Cons.IH [OF b] show ?case
    by simp
qed

lemma build_rev_inverse:
  "build_rev pm acc ns = Inr rv \<Longrightarrow> inj_on pm (set ns) \<Longrightarrow> n \<in> set ns \<Longrightarrow>
     pm n = Some rc \<Longrightarrow> rv rc = Some n"
proof (induction ns arbitrary: acc)
  case Nil
  then show ?case by simp
next
  case (Cons m ms)
  from Cons.prems(1) obtain c where c: "pm m = Some c" and
    b: "build_rev pm (acc(c \<mapsto> m)) ms = Inr rv"
    by (auto simp: lookup_def split: option.splits)
  from Cons.prems(2) have inj: "inj_on pm (set ms)"
    by (simp add: inj_on_def)
  show ?case
  proof (cases "n \<in> set ms")
    case True
    from Cons.IH [OF b inj True Cons.prems(4)] show ?thesis .
  next
    case False
    with Cons.prems(3) have nm: "n = m"
      by simp
    have "\<forall>k\<in>set ms. pm k \<noteq> Some rc"
    proof
      fix k
      assume k: "k \<in> set ms"
      show "pm k \<noteq> Some rc"
      proof
        assume "pm k = Some rc"
        with Cons.prems(2,4) k nm have "k = m"
          by (auto simp: inj_on_def)
        with k False nm show False
          by simp
      qed
    qed
    from build_rev_keep [OF b this] c nm Cons.prems(4) show ?thesis
      by simp
  qed
qed

lemma coupler_value_correct:
  assumes rv: "build_rev pm Map.empty ns = Inr rv"
    and inj: "inj_on pm (set ns)"
    and ne: "\<forall>u\<in>set ns. u \<noteq> []"
  shows "coupler_value tv rv (edge_set es) (r1, c1, r2, c2) =
           (if \<exists>u\<in>set ns. \<exists>v\<in>set ns. pm u = Some (r1, c1) \<and> pm v = Some (r2, c2)
                  \<and> ((u, v) \<in> set es \<or> (v, u) \<in> set es)
            then 1 else 0)"
proof (cases "rv (r1, c1)")
  case None
  from build_rev_None [OF rv None] have "\<forall>n\<in>set ns. pm n \<noteq> Some (r1, c1)"
    by simp
  with None show ?thesis
    by (cases tv) auto
next
  case u: (Some u)
  from build_rev_Some [OF rv u] have u_in: "u \<in> set ns" and u_at: "pm u = Some (r1, c1)"
    by auto
  show ?thesis
  proof (cases "rv (r2, c2)")
    case None
    from build_rev_None [OF rv None] have "\<forall>n\<in>set ns. pm n \<noteq> Some (r2, c2)"
      by simp
    with None u show ?thesis
      by (cases tv) auto
  next
    case v: (Some v)
    from build_rev_Some [OF rv v] have v_in: "v \<in> set ns" and v_at: "pm v = Some (r2, c2)"
      by auto
    have only_u: "u' = u" if "u' \<in> set ns" "pm u' = Some (r1, c1)" for u'
      using that u_in u_at inj by (auto simp: inj_on_def)
    have only_v: "v' = v" if "v' \<in> set ns" "pm v' = Some (r2, c2)" for v'
      using that v_in v_at inj by (auto simp: inj_on_def)
    have rhs: "(\<exists>u'\<in>set ns. \<exists>v'\<in>set ns. pm u' = Some (r1, c1) \<and> pm v' = Some (r2, c2)
                  \<and> ((u', v') \<in> set es \<or> (v', u') \<in> set es))
               = ((u, v) \<in> set es \<or> (v, u) \<in> set es)"
      using only_u only_v u_in u_at v_in v_at by blast
    from ne u_in v_in have "truthy (Some u)" and "truthy (Some v)"
      by (simp_all add: truthy_def)
    with u v have "coupler_value tv rv (edge_set es) (r1, c1, r2, c2) =
            (if sorted2 u v \<in> set (edge_set es) then 1 else 0)"
      by (cases tv) simp_all
    with rhs show ?thesis
      by (simp add: edge_set_member)
  qed
qed

lemma add_pairs_subset: "set (add_pairs acc ps) \<subseteq> set acc \<union> set ps"
proof (induction ps arbitrary: acc)
  case Nil
  then show ?case by simp
next
  case (Cons p ps)
  obtain r c rr cc where p: "p = (r, c, rr, cc)"
    by (cases p) auto
  from Cons.IH [of "if (rr, cc, r, c) \<in> set acc then acc else acc @ [(r, c, rr, cc)]"]
  show ?case
    by (auto simp: p split: if_splits)
qed

lemma coupler_candidates_iff:
  "((r, c, rr, cc) \<in> set (coupler_candidates rows cols)) =
     (in_grid rows cols (r, c) \<and> (rr, cc) \<in> set (hex_neighbors rows cols r c))"
  by (auto simp: coupler_candidates_def set_all_cells)

lemma coupler_pairs_adjacent:
  assumes "(r, c, rr, cc) \<in> set (coupler_pairs rows cols)"
  shows "in_grid rows cols (r, c) \<and> (rr, cc) \<in> set (hex_neighbors rows cols r c)"
proof -
  from assms add_pairs_subset [of "[]" "coupler_candidates rows cols"]
  have "(r, c, rr, cc) \<in> set (coupler_candidates rows cols)"
    by (auto simp: coupler_pairs_def)
  then show ?thesis
    by (simp add: coupler_candidates_iff)
qed

text \<open>
  C2. For a graph as the generators build it, with the labels \<open>str(0), ..., str(n - 1)\<close>
  on pairwise different cells, every coupler line carries 1 exactly when both cells of
  its pair are occupied by nodes and an edge joins the two labels, in either
  orientation, and 0 otherwise; the lines are those of the canonical pairs in sorted
  order. The label \<open>''0''\<close> is a non-empty string and counts as true in \<open>u and v\<close>.
\<close>

theorem coupler_enable_values:
  assumes "ns = labels n"
    and "inj_on pm (set ns)"
    and "write_testbench tv rows cols ns es pm = Inr tb"
  shows "map fst (coupler_lines tb) = sort (coupler_pairs rows cols)
       \<and> (\<forall>((r1, c1, r2, c2), on) \<in> set (coupler_lines tb).
            in_grid rows cols (r1, c1) \<and> (r2, c2) \<in> set (hex_neighbors rows cols r1 c1))
       \<and> (\<forall>((r1, c1, r2, c2), on) \<in> set (coupler_lines tb).
            on = (if \<exists>u\<in>set ns. \<exists>v\<in>set ns. pm u = Some (r1, c1) \<and> pm v = Some (r2, c2)
                       \<and> ((u, v) \<in> set es \<or> (v, u) \<in> set es)
                  then 1 else 0))"
proof -
  from assms(3) obtain rv where rv: "build_rev pm Map.empty ns = Inr rv" and
    tb: "coupler_lines tb =
           map (\<lambda>p. (p, coupler_value tv rv (edge_set es) p)) (sort (coupler_pairs rows cols))"
    by (auto simp: write_testbench_def split: sum.splits)
  from assms(1) have ne: "\<forall>u\<in>set ns. u \<noteq> []"
    by (simp add: labels_nonempty)
  have "map fst (coupler_lines tb) = sort (coupler_pairs rows cols)"
    by (simp add: tb comp_def)
  moreover have "\<forall>((r1, c1, r2, c2), on) \<in> set (coupler_lines tb).
            in_grid rows cols (r1, c1) \<and> (r2, c2) \<in> set (hex_neighbors rows cols r1 c1)"
    using coupler_pairs_adjacent [of _ _ _ _ rows cols] by (auto simp: tb)
  moreover have "\<forall>((r1, c1, r2, c2), on) \<in> set (coupler_lines tb).
            on = (if \<exists>u\<in>set ns. \<exists>v\<in>set ns. pm u = Some (r1, c1) \<and> pm v = Some (r2, c2)
                       \<and> ((u, v) \<in> set es \<or> (v, u) \<in> set es)
                  then 1 else 0)"
    using coupler_value_correct [OF rv assms(2) ne, of tv es] by (auto simp: tb)
  ultimately show ?thesis
    by simp
qed


theorem coupler_enable_values_witness:
  "labels 2 = [''0'', ''1'']
   \<and> inj_on [''0'' \<mapsto> (0 :: int, 0 :: int), ''1'' \<mapsto> (1, 0)] (set (labels 2))
   \<and> (\<exists>tb. write_testbench TB_Planar 2 2 (labels 2) [(''0'', ''1'')]
               [''0'' \<mapsto> (0, 0), ''1'' \<mapsto> (1, 0)] = Inr tb
          \<and> coupler_lines tb = [((0, 0, 0, 1), 0), ((0, 0, 1, 0), 1), ((0, 1, 1, 0), 0),
                                ((0, 1, 1, 1), 0), ((1, 0, 1, 1), 0)]
          \<and> map fst (coupler_lines tb) = sort (coupler_pairs 2 2))"
proof -
  have l: "labels 2 = [''0'', ''1'']"
    by code_simp
  have inj: "inj_on [''0'' \<mapsto> (0 :: int, 0 :: int), ''1'' \<mapsto> (1, 0)] (set (labels 2))"
    by (simp add: l inj_on_def)
  have "case write_testbench TB_Planar 2 2 (labels 2) [(''0'', ''1'')]
               [''0'' \<mapsto> (0, 0), ''1'' \<mapsto> (1, 0)] of
          Inl e \<Rightarrow> False
        | Inr tb \<Rightarrow> coupler_lines tb = [((0, 0, 0, 1), 0), ((0, 0, 1, 0), 1), ((0, 1, 1, 0), 0),
                                         ((0, 1, 1, 1), 0), ((1, 0, 1, 1), 0)]"
    by code_simp
  then obtain tb where
    tb: "write_testbench TB_Planar 2 2 (labels 2) [(''0'', ''1'')]
               [''0'' \<mapsto> (0, 0), ''1'' \<mapsto> (1, 0)] = Inr tb" and
    ls: "coupler_lines tb = [((0, 0, 0, 1), 0), ((0, 0, 1, 0), 1), ((0, 1, 1, 0), 0),
                             ((0, 1, 1, 1), 0), ((1, 0, 1, 1), 0)]"
    by (auto split: sum.splits)
  from coupler_enable_values [OF refl inj tb] l inj tb ls show ?thesis
    by simp
qed

section \<open>The degree bound\<close>

lemma sorted2_ends:
  "(fst (sorted2 a b) = a \<and> snd (sorted2 a b) = b) \<or> (fst (sorted2 a b) = b \<and> snd (sorted2 a b) = a)"
  by (simp add: sorted2_def)

lemma incident_count_snoc:
  "incident_count n (es @ [e]) = incident_count n es + (if fst e = n \<or> snd e = n then 1 else 0)"
  by (simp add: incident_count_def)

lemma add_edge_refused:
  "add_edge a b s = Inr (False, s') \<Longrightarrow> s' = s"
  by (auto simp: add_edge_def Let_def split: if_splits sum.splits)

lemma add_edge_added:
  assumes "add_edge a b s = Inr (True, s')"
  obtains da db where "a \<noteq> b" and "degree s a = Some da" and "da < maxdeg"
    and "degree s b = Some db" and "db < maxdeg"
    and "s' = s\<lparr>edges := edges s @ [sorted2 a b],
                 degree := ((degree s)(a \<mapsto> da + 1))(b \<mapsto> db + 1)\<rparr>"
  using assms
  by (auto simp: add_edge_def Let_def lookup_def split: if_splits sum.splits option.splits)

lemma add_edge_degree_inv:
  assumes inv: "degree_inv s" and ae: "add_edge a b s = Inr (ok, s')"
  shows "degree_inv s'"
proof (cases ok)
  case False
  with ae inv show ?thesis
    by (auto dest: add_edge_refused)
next
  case True
  with ae have "add_edge a b s = Inr (True, s')"
    by simp
  then obtain da db where ab: "a \<noteq> b" and da: "degree s a = Some da" and la: "da < maxdeg"
    and db: "degree s b = Some db" and lb: "db < maxdeg"
    and s': "s' = s\<lparr>edges := edges s @ [sorted2 a b],
                      degree := ((degree s)(a \<mapsto> da + 1))(b \<mapsto> db + 1)\<rparr>"
    by (rule add_edge_added)
  from inv da db have ca: "da = incident_count a (edges s)" and cb: "db = incident_count b (edges s)"
    by (auto simp: degree_inv_def)
  have counts: "d = incident_count n (edges s') \<and> d \<le> maxdeg" if "degree s' n = Some d" for n d
  proof -
    consider "n = b" | "n = a" "n \<noteq> b" | "n \<noteq> a" "n \<noteq> b"
      by blast
    then show ?thesis
    proof cases
      case 1
      with that s' have "d = db + 1"
        by simp
      with 1 cb lb sorted2_ends [of a b] show ?thesis
        by (auto simp: s' incident_count_snoc)
    next
      case 2
      with that s' have "d = da + 1"
        by simp
      with 2 ca la sorted2_ends [of a b] show ?thesis
        by (auto simp: s' incident_count_snoc)
    next
      case 3
      with that s' have "degree s n = Some d"
        by simp
      with inv have "d = incident_count n (edges s)" and "d \<le> maxdeg"
        by (auto simp: degree_inv_def)
      with 3 sorted2_ends [of a b] show ?thesis
        by (auto simp: s' incident_count_snoc)
    qed
  qed
  have keys: "fst e \<in> dom (degree s') \<and> snd e \<in> dom (degree s')" if "e \<in> set (edges s')" for e
  proof (cases "e = sorted2 a b")
    case True
    with sorted2_ends [of a b] show ?thesis
      by (auto simp: s')
  next
    case False
    with that have "e \<in> set (edges s)"
      by (simp add: s')
    with inv have "fst e \<in> dom (degree s)" and "snd e \<in> dom (degree s)"
      by (auto simp: degree_inv_def)
    then show ?thesis
      by (auto simp: s')
  qed
  from counts keys show ?thesis
    unfolding degree_inv_def by blast
qed

lemma degree_inv_bound:
  assumes "degree_inv s"
  shows "incident_count n (edges s) \<le> maxdeg"
proof (cases "degree s n")
  case (Some d)
  with assms show ?thesis
    by (auto simp: degree_inv_def)
next
  case None
  with assms have "\<forall>e\<in>set (edges s). fst e \<noteq> n \<and> snd e \<noteq> n"
    by (auto simp: degree_inv_def)
  then have "filter (\<lambda>e. fst e = n \<or> snd e = n) (edges s) = []"
    by (auto simp: filter_empty_conv)
  then show ?thesis
    by (simp add: incident_count_def)
qed

lemma degree_inv_init: "degree_inv (init_gstate ns)"
proof -
  have "d = 0" if "map_of (map (\<lambda>n. (n, 0 :: nat)) ns) n = Some d" for n d
    using that by (auto dest!: map_of_SomeD)
  then show ?thesis
    by (auto simp: degree_inv_def init_gstate_def incident_count_def)
qed

subsection \<open>The phases change the graph through \<open>add_edge\<close> only\<close>

lemma spanning_degree_inv:
  "degree_inv s \<Longrightarrow> spanning P pick rows cols pm unvisited vis s st = (Done s', st') \<Longrightarrow>
     degree_inv s'"
proof (induction "length unvisited" arbitrary: unvisited vis s st rule: less_induct)
  case less
  show ?case
  proof (cases "set_pop pick unvisited")
    case (Inl e)
    with less.prems show ?thesis
      by (simp add: spanning.simps [of _ _ _ _ _ unvisited] split: if_splits)
  next
    case (Inr x)
    obtain nxt rest where x: "x = (nxt, rest)"
      by (cases x)
    from Inr have "unvisited \<noteq> []"
      by (auto simp: set_pop_def)
    with less.prems(2) Inr x obtain parent ok s1 st1 where
      ae: "add_edge parent nxt s = Inr (ok, s1)" and
      rec: "spanning P pick rows cols pm rest (set_add nxt vis) s1 st1 = (Done s', st')"
      by (auto simp: spanning.simps [of _ _ _ _ _ unvisited] split: sum.splits if_splits prod.splits)
    from Inr x have "length rest < length unvisited"
      by (auto dest: set_pop_shorter)
    from less.hyps [OF this add_edge_degree_inv [OF less.prems(1) ae] rec] show ?thesis .
  qed
qed

lemma densify_row_degree_inv:
  "degree_inv s \<Longrightarrow> densify_row P p rows cols pm u ruc vs s st = (Inr s', st') \<Longrightarrow>
     degree_inv s'"
proof (induction vs arbitrary: s st)
  case Nil
  then show ?case by simp
next
  case (Cons v vs)
  show ?case
  proof (cases "u = v")
    case True
    with Cons show ?thesis by simp
  next
    case False
    with Cons.prems(2) obtain s1 st1 where
      s1: "s1 = s \<or> (\<exists>ok. add_edge u v s = Inr (ok, s1))" and
      rec: "densify_row P p rows cols pm u ruc vs s1 st1 = (Inr s', st')"
      by (auto split: sum.splits if_splits prod.splits)
    from s1 Cons.prems(1) have "degree_inv s1"
      by (auto dest: add_edge_degree_inv)
    from Cons.IH [OF this rec] show ?thesis .
  qed
qed

lemma densify_degree_inv:
  "degree_inv s \<Longrightarrow> densify P p rows cols pm ns us s st = (Inr s', st') \<Longrightarrow> degree_inv s'"
proof (induction us arbitrary: s st)
  case Nil
  then show ?case by simp
next
  case (Cons u us)
  from Cons.prems(2) obtain ruc s1 st1 where
    row: "densify_row P p rows cols pm u ruc ns s st = (Inr s1, st1)" and
    rec: "densify P p rows cols pm ns us s1 st1 = (Inr s', st')"
    by (auto split: sum.splits prod.splits)
  from Cons.IH [OF densify_row_degree_inv [OF Cons.prems(1) row] rec] show ?case .
qed

lemma move_to_visited_gs': "move_to_visited w (t\<lparr>gs := g\<rparr>) = Inr t' \<Longrightarrow> gs t' = g"
  by (auto dest: move_to_visited_gs)

lemma bfs_connect_degree_inv:
  "degree_inv (gs t) \<Longrightarrow> bfs_connect u ws t = Inr t' \<Longrightarrow> degree_inv (gs t')"
proof (induction ws arbitrary: t)
  case Nil
  then show ?case by simp
next
  case (Cons w ws)
  from Cons.prems(2) obtain t1 where
    t1: "t1 = t \<or> (\<exists>ok g'. add_edge u w (gs t) = Inr (ok, g') \<and> gs t1 = g')" and
    rec: "bfs_connect u ws t1 = Inr t'"
    by (auto split: sum.splits if_splits prod.splits dest: move_to_visited_gs')
  from t1 Cons.prems(1) have "degree_inv (gs t1)"
    by (auto dest: add_edge_degree_inv)
  from Cons.IH [OF this rec] show ?case .
qed

lemma try_fix_degree_inv:
  "degree_inv (gs t) \<Longrightarrow> try_fix rows cols pm p prc ws t = Inr (fixed, t') \<Longrightarrow>
     degree_inv (gs t')"
proof (induction ws)
  case Nil
  then show ?case by simp
next
  case (Cons w ws)
  from Cons.prems(2) have
    "try_fix rows cols pm p prc ws t = Inr (fixed, t')
     \<or> (\<exists>ok g'. add_edge p w (gs t) = Inr (ok, g') \<and> gs t' = g')"
    by (auto split: sum.splits if_splits prod.splits dest: move_to_visited_gs')
  with Cons.IH Cons.prems(1) show ?case
    by (auto dest: add_edge_degree_inv)
qed

lemma force_fix_degree_inv:
  assumes "degree_inv (gs t)" and "force_fix pick pm t = Inr t'"
  shows "degree_inv (gs t')"
proof -
  from assms(2) obtain best_p w ok g' where
    "add_edge best_p w (gs t) = Inr (ok, g')" and "gs t' = g'"
    by (auto simp: force_fix_def split: list.splits sum.splits prod.splits
        dest: move_to_visited_gs')
  with assms(1) show ?thesis
    by (auto dest: add_edge_degree_inv)
qed

lemma unstick_degree_inv:
  assumes "degree_inv (gs t)" and "unstick P pick rows cols pm t st = (Inr t', st')"
  shows "degree_inv (gs t')"
proof -
  from assms(2) obtain p prc fixed t1 where
    tf: "try_fix rows cols pm p prc (set_iter pick (remaining t)) t = Inr (fixed, t1)" and
    rest: "if fixed then t' = t1 else force_fix pick pm t1 = Inr t'"
    by (auto simp: unstick_def split: sum.splits prod.splits if_splits)
  from try_fix_degree_inv [OF assms(1) tf] rest force_fix_degree_inv [of t1 pick pm t']
  show ?thesis
    by (cases fixed) auto
qed

lemma safe_step_degree_inv:
  assumes "degree_inv (gs t)" and "safe_step P pick rows cols pm t st = (Inr t', st')"
  shows "degree_inv (gs t')"
proof -
  from assms(2) obtain u q nbrs t1 where
    b: "bfs_connect u nbrs (t\<lparr>queue := q\<rparr>) = Inr t1" and
    rest: "if queue t1 = [] \<and> remaining t1 \<noteq> []
           then unstick P pick rows cols pm t1 st = (Inr t', st') else t' = t1"
    by (auto simp: safe_step_def split: list.splits sum.splits prod.splits if_splits)
  from assms(1) have "degree_inv (gs (t\<lparr>queue := q\<rparr>))"
    by simp
  from bfs_connect_degree_inv [OF this b] rest unstick_degree_inv [of t1 P pick rows cols pm st t' st']
  show ?thesis
    by (auto split: if_splits)
qed

lemma safe_loop_degree_inv:
  "degree_inv (gs t) \<Longrightarrow> safe_loop P pick rows cols pm t st = (Inr t', st') \<Longrightarrow>
     degree_inv (gs t')"
proof (induction "progress t" arbitrary: t st rule: less_induct)
  case less
  show ?case
  proof (cases "remaining t = []")
    case True
    with less.prems show ?thesis
      by (simp add: safe_loop.simps [of _ _ _ _ _ t])
  next
    case False
    with less.prems(2) obtain t1 st1 where
      step: "safe_step P pick rows cols pm t st = (Inr t1, st1)" and
      rec: "safe_loop P pick rows cols pm t1 st1 = (Inr t', st')"
      by (auto simp: safe_loop.simps [of _ _ _ _ _ t] split: sum.splits prod.splits)
    from less.hyps [OF safe_step_progress [OF step] safe_step_degree_inv [OF less.prems(1) step] rec]
    show ?thesis .
  qed
qed

subsection \<open>The returned graphs\<close>

lemma attempt_degree_bound:
  assumes "attempt v P pick rows cols n st = (Done g, st')"
  shows "incident_count x (edge_list g) \<le> maxdeg"
proof -
  from assms obtain pm start unvisited st1 s1 st2 s2 where
    sp: "spanning P pick rows cols pm unvisited (set_add start []) (init_gstate (labels n)) st1 =
           (Done s1, st2)" and
    de: "densify P (edge_prob v) rows cols pm (labels n) (labels n) s1 st2 = (Inr s2, st')" and
    g: "edge_list g = edges s2"
    by (auto simp: attempt_def split: if_splits sum.splits prod.splits outcome.splits)
  from densify_degree_inv [OF spanning_degree_inv [OF degree_inv_init sp] de] g
  show ?thesis
    by (simp add: degree_inv_bound)
qed

lemma generate_returns_attempt:
  "fst (generate_planar_graph fuel v P pick rows cols n seed st) = Some (Inr g) \<Longrightarrow>
     \<exists>st0 st1. attempt v P pick rows cols n st0 = (Done g, st1)"
proof (induction fuel arbitrary: st)
  case 0
  then show ?case
    by (auto simp: generate_planar_graph.simps [of 0] split: prod.splits outcome.splits)
next
  case (Suc k)
  then show ?case
    by (auto simp: generate_planar_graph.simps [of "Suc k"] split: prod.splits outcome.splits)
qed

lemma generate_safe_degree_bound:
  assumes "fst (generate_planar_graph_safe P pick rows cols n seed st) = Inr g"
  shows "incident_count x (edge_list g) \<le> maxdeg"
proof -
  from assms obtain pm start rem st1 t st2 s2 st3 where
    lp: "safe_loop P pick rows cols pm
           \<lparr>gs = init_gstate (labels n), remaining = rem, visited = [start], queue = [start]\<rparr> st1 =
           (Inr t, st2)" and
    de: "densify P (edge_prob Planar) rows cols pm (labels n) (labels n) (gs t) st2 = (Inr s2, st3)" and
    g: "edge_list g = edges s2"
    by (auto simp: generate_planar_graph_safe_def Let_def
        split: if_splits sum.splits prod.splits)
  have "degree_inv (gs \<lparr>gs = init_gstate (labels n), remaining = rem, visited = [start],
                        queue = [start]\<rparr>)"
    by (simp add: degree_inv_init)
  from densify_degree_inv [OF safe_loop_degree_inv [OF this lp] de] g show ?thesis
    by (simp add: degree_inv_bound)
qed

text \<open>
  C5. In every graph a generator returns, restarting or not, at most 6 edges meet at
  any node. The bound is kept through the phases: the spanning phase, the search loop
  of the generator without restarts and the densification phase each take a state in
  which \<open>degree\<close> counts the edges at every label and stays within 6 to another such
  state; the initial state is one, and in such a state no label has more than 6 edges.
\<close>

theorem degree_bound:
  "(fst (generate_planar_graph fuel v P pick rows cols n seed st) = Some (Inr g) \<longrightarrow>
      (\<forall>x\<in>set (nodes g). incident_count x (edge_list g) \<le> 6))
   \<and> (fst (generate_planar_graph_safe P pick rows cols n seed st) = Inr g' \<longrightarrow>
      (\<forall>x\<in>set (nodes g'). incident_count x (edge_list g') \<le> 6))
   \<and> (degree_inv s \<and> fst (spanning P pick rows cols pm unvisited vis s st) = Done s1 \<longrightarrow>
      degree_inv s1)
   \<and> (degree_inv (gs t) \<and> fst (safe_loop P pick rows cols pm t st) = Inr t' \<longrightarrow>
      degree_inv (gs t'))
   \<and> (degree_inv s \<and> fst (densify P p rows cols pm ns us s st) = Inr s2 \<longrightarrow> degree_inv s2)
   \<and> degree_inv (init_gstate ns)
   \<and> (degree_inv s \<longrightarrow> (\<forall>x. incident_count x (edges s) \<le> 6))"
proof (intro conjI impI ballI allI)
  fix x
  assume "fst (generate_planar_graph fuel v P pick rows cols n seed st) = Some (Inr g)"
  then obtain st0 st1 where "attempt v P pick rows cols n st0 = (Done g, st1)"
    by (blast dest: generate_returns_attempt)
  from attempt_degree_bound [OF this, of x] show "incident_count x (edge_list g) \<le> 6"
    by (simp add: maxdeg_def)
next
  fix x
  assume "fst (generate_planar_graph_safe P pick rows cols n seed st) = Inr g'"
  from generate_safe_degree_bound [OF this, of x] show "incident_count x (edge_list g') \<le> 6"
    by (simp add: maxdeg_def)
next
  assume "degree_inv s \<and> fst (spanning P pick rows cols pm unvisited vis s st) = Done s1"
  then show "degree_inv s1"
    by (cases "spanning P pick rows cols pm unvisited vis s st") (auto dest: spanning_degree_inv)
next
  assume "degree_inv (gs t) \<and> fst (safe_loop P pick rows cols pm t st) = Inr t'"
  then show "degree_inv (gs t')"
    by (cases "safe_loop P pick rows cols pm t st") (auto dest: safe_loop_degree_inv)
next
  assume "degree_inv s \<and> fst (densify P p rows cols pm ns us s st) = Inr s2"
  then show "degree_inv s2"
    by (cases "densify P p rows cols pm ns us s st") (auto dest: densify_degree_inv)
next
  show "degree_inv (init_gstate ns)"
    by (rule degree_inv_init)
next
  fix x
  assume "degree_inv s"
  from degree_inv_bound [OF this, of x] show "incident_count x (edges s) \<le> 6"
    by (simp add: maxdeg_def)
qed

lemma example_runs:
  "(case fst (generate_planar_graph 0 Planar counter_prng first_pick 3 3 6 (Some 1) 0) of
      Some (Inr g) \<Rightarrow>
        nodes g = [''0'', ''1'', ''2'', ''3'', ''4'', ''5'']
        \<and> edge_list g = [(''0'', ''1''), (''0'', ''2''), (''1'', ''3''), (''3'', ''4''),
                         (''2'', ''5''), (''0'', ''3''), (''1'', ''4''), (''2'', ''3'')]
    | other \<Rightarrow> False)
   \<and> (case fst (generate_planar_graph_safe counter_prng first_pick 3 3 6 (Some 1) 0) of
      Inr g \<Rightarrow>
        nodes g = [''0'', ''1'', ''2'', ''3'', ''4'', ''5'']
        \<and> edge_list g = [(''0'', ''1''), (''0'', ''2''), (''0'', ''3''), (''1'', ''4''),
                         (''2'', ''5''), (''1'', ''3''), (''2'', ''3''), (''3'', ''4'')]
    | Inl e \<Rightarrow> False)
   \<and> (case fst (spanning counter_prng first_pick 3 3 [''0'' \<mapsto> (0, 0), ''1'' \<mapsto> (0, 1)]
                  [''1''] [''0''] (init_gstate [''0'', ''1'']) 0) of
      Done s1 \<Rightarrow> edges s1 = [(''0'', ''1'')]
    | other \<Rightarrow> False)
   \<and> (case fst (safe_loop counter_prng first_pick 3 3 [''0'' \<mapsto> (0, 0), ''1'' \<mapsto> (0, 1)]
                  \<lparr>gs = init_gstate [''0'', ''1''], remaining = [''1''], visited = [''0''],
                   queue = [''0'']\<rparr> 0) of
      Inr t' \<Rightarrow> edges (gs t') = [(''0'', ''1'')]
    | Inl e \<Rightarrow> False)
   \<and> (case fst (densify counter_prng (edge_prob Planar) 3 3
                  [''0'' \<mapsto> (0, 0), ''1'' \<mapsto> (0, 1)] [''0'', ''1''] [''0'', ''1'']
                  (init_gstate [''0'', ''1'']) 0) of
      Inr s2 \<Rightarrow> edges s2 = [(''0'', ''1'')]
    | Inl e \<Rightarrow> False)"
  by code_simp

theorem degree_bound_witness:
  "(\<exists>g. fst (generate_planar_graph 0 Planar counter_prng first_pick 3 3 6 (Some 1) 0) =
          Some (Inr g)
      \<and> nodes g = [''0'', ''1'', ''2'', ''3'', ''4'', ''5'']
      \<and> edge_list g = [(''0'', ''1''), (''0'', ''2''), (''1'', ''3''), (''3'', ''4''),
                       (''2'', ''5''), (''0'', ''3''), (''1'', ''4''), (''2'', ''3'')]
      \<and> incident_count ''3'' (edge_list g) \<le> 6)
   \<and> (\<exists>g. fst (generate_planar_graph_safe counter_prng first_pick 3 3 6 (Some 1) 0) = Inr g
      \<and> nodes g = [''0'', ''1'', ''2'', ''3'', ''4'', ''5'']
      \<and> edge_list g = [(''0'', ''1''), (''0'', ''2''), (''0'', ''3''), (''1'', ''4''),
                       (''2'', ''5''), (''1'', ''3''), (''2'', ''3''), (''3'', ''4'')]
      \<and> incident_count ''3'' (edge_list g) \<le> 6)
   \<and> degree_inv (init_gstate [''0'', ''1''])
   \<and> (\<exists>s1. fst (spanning counter_prng first_pick 3 3 [''0'' \<mapsto> (0, 0), ''1'' \<mapsto> (0, 1)]
                 [''1''] [''0''] (init_gstate [''0'', ''1'']) 0) = Done s1
      \<and> edges s1 = [(''0'', ''1'')] \<and> degree_inv s1
      \<and> incident_count ''0'' (edges s1) \<le> 6)
   \<and> (\<exists>t'. fst (safe_loop counter_prng first_pick 3 3 [''0'' \<mapsto> (0, 0), ''1'' \<mapsto> (0, 1)]
                 \<lparr>gs = init_gstate [''0'', ''1''], remaining = [''1''], visited = [''0''],
                  queue = [''0'']\<rparr> 0) = Inr t'
      \<and> edges (gs t') = [(''0'', ''1'')] \<and> degree_inv (gs t'))
   \<and> (\<exists>s2. fst (densify counter_prng (edge_prob Planar) 3 3
                 [''0'' \<mapsto> (0, 0), ''1'' \<mapsto> (0, 1)] [''0'', ''1''] [''0'', ''1'']
                 (init_gstate [''0'', ''1'']) 0) = Inr s2
      \<and> edges s2 = [(''0'', ''1'')] \<and> degree_inv s2)"
proof -
  let ?pm = "[''0'' \<mapsto> (0 :: int, 0 :: int), ''1'' \<mapsto> (0, 1)]"
  let ?s0 = "init_gstate [''0'', ''1'']"
  let ?t0 = "\<lparr>gs = ?s0, remaining = [''1''], visited = [''0''], queue = [''0'']\<rparr>"
  from example_runs obtain g where
    g: "fst (generate_planar_graph 0 Planar counter_prng first_pick 3 3 6 (Some 1) 0) =
          Some (Inr g)" and
    gn: "nodes g = [''0'', ''1'', ''2'', ''3'', ''4'', ''5'']" and
    ge: "edge_list g = [(''0'', ''1''), (''0'', ''2''), (''1'', ''3''), (''3'', ''4''),
                        (''2'', ''5''), (''0'', ''3''), (''1'', ''4''), (''2'', ''3'')]"
    by (auto split: option.splits sum.splits)
  from example_runs obtain h where
    h: "fst (generate_planar_graph_safe counter_prng first_pick 3 3 6 (Some 1) 0) = Inr h" and
    hn: "nodes h = [''0'', ''1'', ''2'', ''3'', ''4'', ''5'']" and
    he: "edge_list h = [(''0'', ''1''), (''0'', ''2''), (''0'', ''3''), (''1'', ''4''),
                        (''2'', ''5''), (''1'', ''3''), (''2'', ''3''), (''3'', ''4'')]"
    by (auto split: option.splits sum.splits)
  from example_runs obtain s1 where
    s1: "fst (spanning counter_prng first_pick 3 3 ?pm [''1''] [''0''] ?s0 0) = Done s1" and
    s1e: "edges s1 = [(''0'', ''1'')]"
    by (auto split: outcome.splits)
  from example_runs obtain t' where
    t': "fst (safe_loop counter_prng first_pick 3 3 ?pm ?t0 0) = Inr t'" and
    t'e: "edges (gs t') = [(''0'', ''1'')]"
    by (auto split: sum.splits)
  from example_runs obtain s2 where
    s2: "fst (densify counter_prng (edge_prob Planar) 3 3 ?pm [''0'', ''1''] [''0'', ''1''] ?s0 0) =
           Inr s2" and
    s2e: "edges s2 = [(''0'', ''1'')]"
    by (auto split: sum.splits)
  note b1 = degree_bound [of 0 Planar counter_prng first_pick 3 3 6 "Some 1" 0 g h
      ?s0 ?pm "[''1'']" "[''0'']" s1 ?t0 t' "edge_prob Planar" "[''0'', ''1'']" "[''0'', ''1'']" s2]
  note b2 = degree_bound [of 0 Planar counter_prng first_pick 3 3 6 "Some 1" 0 g h
      s1 ?pm "[''1'']" "[''0'']" s1 ?t0 t' "edge_prob Planar" "[''0'', ''1'']" "[''0'', ''1'']" s2]
  have inv0: "degree_inv ?s0"
    using b1 by blast
  have "degree_inv (gs ?t0)"
    using inv0 by simp
  have c1: "incident_count ''3'' (edge_list g) \<le> 6"
    using b1 g gn by simp
  have c2: "incident_count ''3'' (edge_list h) \<le> 6"
    using b1 h hn by simp
  have c3: "degree_inv s1"
    using b1 inv0 s1 by blast
  have c3': "incident_count ''0'' (edges s1) \<le> 6"
    using b2 c3 by blast
  have c4: "degree_inv (gs t')"
    using b1 \<open>degree_inv (gs ?t0)\<close> t' by blast
  have c5: "degree_inv s2"
    using b1 inv0 s2 by blast
  from g gn ge c1 h hn he c2 inv0 s1 s1e c3 c3' t' t'e c4 s2 s2e c5 show ?thesis
    by blast
qed

end
